theory Spec2Isabelle
  imports Complex_Main "HOL-Library.Sublist"
begin

section \<open>Python and Sage primitives used by the notebook\<close>

text \<open>
  The notebook \<^verbatim>\<open>Check_Standard_Conjectures.ipynb\<close> is Sage code: integers are
  unbounded, \<^verbatim>\<open>(a..b)\<close> is the inclusive range, \<^verbatim>\<open>^\<close> is exponentiation, vectors
  live in a free module of fixed rank and matrices are mutable.  Exceptions are values of
  the type \<open>error\<close>; a function that can raise returns \<open>error + 'a\<close>.
\<close>

datatype error = ValueError | TypeError | IndexError | NameError | ZeroDivisionError

definition ebind :: "error + 'a \<Rightarrow> ('a \<Rightarrow> error + 'b) \<Rightarrow> error + 'b" where
  "ebind r f = (case r of Inl e \<Rightarrow> Inl e | Inr x \<Rightarrow> f x)"

text \<open>A \<^verbatim>\<open>for\<close> loop over a list, threading the state and stopping at the first exception.\<close>

fun forM :: "'a list \<Rightarrow> ('a \<Rightarrow> 's \<Rightarrow> error + 's) \<Rightarrow> 's \<Rightarrow> error + 's" where
  "forM [] f s = Inr s"
| "forM (x # xs) f s = (case f x s of Inl e \<Rightarrow> Inl e | Inr s' \<Rightarrow> forM xs f s')"

text \<open>A list comprehension whose element expression can raise.\<close>

fun mapM :: "('a \<Rightarrow> error + 'b) \<Rightarrow> 'a list \<Rightarrow> error + 'b list" where
  "mapM f [] = Inr []"
| "mapM f (x # xs) =
     (case f x of Inl e \<Rightarrow> Inl e
      | Inr y \<Rightarrow> (case mapM f xs of Inl e \<Rightarrow> Inl e | Inr ys \<Rightarrow> Inr (y # ys)))"

text \<open>Python list indexing \<^verbatim>\<open>xs[i]\<close>: a negative index counts from the end, an index out of
  range raises \<^verbatim>\<open>IndexError\<close>.\<close>

definition list_get :: "'a list \<Rightarrow> int \<Rightarrow> error + 'a" where
  "list_get xs i =
     (let n = int (length xs); k = (if i < 0 then n + i else i)
      in if 0 \<le> k \<and> k < n then Inr (xs ! nat k) else Inl IndexError)"

definition list_set :: "'a list \<Rightarrow> int \<Rightarrow> 'a \<Rightarrow> error + 'a list" where
  "list_set xs i v =
     (let n = int (length xs); k = (if i < 0 then n + i else i)
      in if 0 \<le> k \<and> k < n then Inr (xs[nat k := v]) else Inl IndexError)"

text \<open>\<^verbatim>\<open>Z.index(z)\<close>: the first position of \<open>z\<close>; \<^verbatim>\<open>ValueError\<close> when \<open>z\<close> is absent.\<close>

fun index_of :: "'a list \<Rightarrow> 'a \<Rightarrow> error + nat" where
  "index_of [] z = Inl ValueError"
| "index_of (x # xs) z =
     (if x = z then Inr 0 else (case index_of xs z of Inl e \<Rightarrow> Inl e | Inr k \<Rightarrow> Inr (Suc k)))"

text \<open>\<^verbatim>\<open>itertools.groupby(l, key=f)\<close>: maximal runs of consecutive elements with equal key.\<close>

function groupby :: "('a \<Rightarrow> 'k) \<Rightarrow> 'a list \<Rightarrow> 'a list list" where
  "groupby f [] = []"
| "groupby f (x # xs) =
     (x # takeWhile (\<lambda>y. f y = f x) xs) # groupby f (dropWhile (\<lambda>y. f y = f x) xs)"
  by pat_completeness auto
termination
  by (relation "measure (\<lambda>(f, xs). length xs)") (auto simp: length_dropWhile_le less_Suc_eq_le)

subsection \<open>Sage vectors over the integers\<close>

text \<open>A vector of \<open>ZZ^n\<close> is the list of its coordinates.  Adding vectors of different
  rank raises \<^verbatim>\<open>TypeError\<close> (no common parent).\<close>

type_synonym vec = "int list"

definition vadd :: "vec \<Rightarrow> vec \<Rightarrow> error + vec" where
  "vadd a b = (if length a = length b then Inr (map2 (+) a b) else Inl TypeError)"

definition smul :: "int \<Rightarrow> vec \<Rightarrow> vec" where
  "smul c v = map (\<lambda>x. c * x) v"

subsection \<open>Sage matrices\<close>

text \<open>A matrix is the list of its rows.  \<^verbatim>\<open>matrix(d)\<close> is the zero \<open>d \<times> d\<close> matrix,
  \<^verbatim>\<open>matrix(r, c)\<close> the zero \<open>r \<times> c\<close> matrix; \<^verbatim>\<open>A[i,j]\<close> outside the matrix raises
  \<^verbatim>\<open>IndexError\<close>.\<close>

type_synonym 'a mat = "'a list list"

definition zero_matrix :: "nat \<Rightarrow> nat \<Rightarrow> ('a::zero) mat" where
  "zero_matrix r c = replicate r (replicate c 0)"

definition nrows :: "'a mat \<Rightarrow> nat" where
  "nrows A = length A"

definition ncols :: "'a mat \<Rightarrow> nat" where
  "ncols A = (case A of [] \<Rightarrow> 0 | r # _ \<Rightarrow> length r)"

definition mat_get :: "'a mat \<Rightarrow> nat \<Rightarrow> nat \<Rightarrow> error + 'a" where
  "mat_get A i j = (if i < length A \<and> j < length (A ! i) then Inr (A ! i ! j) else Inl IndexError)"

definition mat_set :: "'a mat \<Rightarrow> nat \<Rightarrow> nat \<Rightarrow> 'a \<Rightarrow> error + 'a mat" where
  "mat_set A i j v =
     (if i < length A \<and> j < length (A ! i) then Inr (A[i := (A ! i)[j := v]]) else Inl IndexError)"

section \<open>Weights, harmonic numbers and the graded basis\<close>

text \<open>\<^verbatim>\<open>def weight(v): return(sum([v[k-1]*k for k in (1..len(v))]))\<close>\<close>

definition weight :: "vec \<Rightarrow> int" where
  "weight v = sum_list (map (\<lambda>k. v ! nat (k - 1) * k) [1..int (length v)])"

text \<open>\<^verbatim>\<open>harm_list(n)\<close>: starts from \<open>[0]\<close> and appends \<open>H[-1] + 1/k\<close> for \<open>k = 1..n\<close>.\<close>

definition harm_list :: "int \<Rightarrow> rat list" where
  "harm_list n = fold (\<lambda>k H. H @ [last H + 1 / of_int k]) [1..n] [0]"

text \<open>
  \<^verbatim>\<open>IntegerVectors(j,n).list()\<close> is Sage's enumeration of the vectors of \<open>n\<close> non-negative
  integers with sum \<open>j\<close>, by decreasing first coordinate, then recursively (so
  \<^verbatim>\<open>IntegerVectors(2,2).list() = [[2,0],[1,1],[0,2]]\<close>); there is one vector of length
  \<open>0\<close>, of sum \<open>0\<close>.
\<close>

fun IntegerVectors_nat :: "nat \<Rightarrow> nat \<Rightarrow> vec list" where
  "IntegerVectors_nat j 0 = (if j = 0 then [[]] else [])"
| "IntegerVectors_nat j (Suc n) =
     concat (map (\<lambda>i. map (\<lambda>v. int i # v) (IntegerVectors_nat (j - i) n)) (rev [0..<Suc j]))"

definition IntegerVectors :: "int \<Rightarrow> int \<Rightarrow> vec list" where
  "IntegerVectors j n = (if j < 0 \<or> n < 0 then [] else IntegerVectors_nat (nat j) (nat n))"

text \<open>
  \<^verbatim>\<open>
  def B(m,n):
      if (m<0) or (n<0):
          return []
      l = [vector(v) for v in sum([IntegerVectors(j,n).list() for j in (0..m)],[])]
      l.sort(key=weight)
      return [list(x) for _,x in groupby(l,key=weight)]
  \<close>
  Python's sort is stable, as \<open>sort_key\<close> is.
\<close>

definition B :: "int \<Rightarrow> int \<Rightarrow> vec list list" where
  "B m n =
     (if m < 0 \<or> n < 0 then []
      else let l = concat (map (\<lambda>j. IntegerVectors j n) [0..m]);
               l = sort_key weight l
           in groupby weight l)"

section \<open>The geometric pairing tables\<close>

text \<open>What a function returns when one branch returns the empty list \<^verbatim>\<open>[]\<close> and the other
  a tuple.\<close>

datatype 'a pyret = EmptyList | Tuple 'a

text \<open>\<^verbatim>\<open>M[p][i,j]\<close> and \<^verbatim>\<open>M[p][i,j] = v\<close> on a list \<open>M\<close> of matrices.\<close>

definition get_entry :: "'a mat list \<Rightarrow> int \<Rightarrow> nat \<Rightarrow> nat \<Rightarrow> error + 'a" where
  "get_entry M p i j = ebind (list_get M p) (\<lambda>A. mat_get A i j)"

definition set_entry :: "'a mat list \<Rightarrow> int \<Rightarrow> nat \<Rightarrow> nat \<Rightarrow> 'a \<Rightarrow> error + 'a mat list" where
  "set_entry M p i j v =
     ebind (list_get M p) (\<lambda>A. ebind (mat_set A i j v) (\<lambda>A'. list_set M p A'))"

text \<open>
  The body of the innermost loop of \<^verbatim>\<open>Vgeom\<close>:
  \<^verbatim>\<open>
  z = l[i]+l[j]+(n*m-2*p)*e
  if z in Z:
      M[p][i,j] = Z.index(z)
      M[p][j,i] = M[p][i,j]
  else:
      Z.append(z)
      M[p][i,j] = len(Z)-1
      M[p][j,i] = M[p][i,j]
  \<close>
  The state is the pool \<open>Z\<close> and the list \<open>M\<close> of matrices.
\<close>

definition Vgeom_body ::
  "int \<Rightarrow> int \<Rightarrow> vec \<Rightarrow> vec list \<Rightarrow> int \<Rightarrow> nat \<Rightarrow> nat
    \<Rightarrow> vec list \<times> int mat list \<Rightarrow> error + (vec list \<times> int mat list)" where
  "Vgeom_body m n e l p i j s =
     (case s of (Z, M) \<Rightarrow>
        ebind (vadd (l ! i) (l ! j)) (\<lambda>a.
        ebind (vadd a (smul (n * m - 2 * p) e)) (\<lambda>z.
          if z \<in> set Z then
            ebind (index_of Z z) (\<lambda>k.
            ebind (set_entry M p i j (int k)) (\<lambda>M.
            ebind (get_entry M p i j) (\<lambda>x.
            ebind (set_entry M p j i x) (\<lambda>M. Inr (Z, M)))))
          else
            let Z = Z @ [z] in
            ebind (set_entry M p i j (int (length Z) - 1)) (\<lambda>M.
            ebind (get_entry M p i j) (\<lambda>x.
            ebind (set_entry M p j i x) (\<lambda>M. Inr (Z, M)))))))"

text \<open>
  \<^verbatim>\<open>
  def Vgeom(m,n):
      if (m<0) or (n<0):
          return []
      L = B(m,n)
      e = vector([1]+[0]*(n-1))
      Z = []
      M = [matrix(len(x)) for x in L[0:floor(n*m/2)+1]]
      for p in (0..floor(n*m/2)):
          l = L[p]
          for i in range(len(l)):
              for j in range(i,len(l)):
                  ...
      return Z,M
  \<close>
\<close>

definition Vgeom_grade ::
  "int \<Rightarrow> int \<Rightarrow> vec \<Rightarrow> vec list list \<Rightarrow> int
    \<Rightarrow> vec list \<times> int mat list \<Rightarrow> error + (vec list \<times> int mat list)" where
  "Vgeom_grade m n e L p s =
     ebind (list_get L p) (\<lambda>l.
       forM [0..<length l] (\<lambda>i. forM [i..<length l] (\<lambda>j. Vgeom_body m n e l p i j)) s)"

definition Vgeom :: "int \<Rightarrow> int \<Rightarrow> error + (vec list \<times> int mat list) pyret" where
  "Vgeom m n =
     (if m < 0 \<or> n < 0 then Inr EmptyList
      else let L = B m n;
               e = 1 # replicate (nat (n - 1)) 0;
               Z = [];
               M = map (\<lambda>x. zero_matrix (length x) (length x)) (take (nat ((n * m) div 2 + 1)) L)
           in ebind (forM [0..(n * m) div 2] (Vgeom_grade m n e L) (Z, M)) (\<lambda>s. Inr (Tuple s)))"

section \<open>The geometric degree\<close>

text \<open>
  \<^verbatim>\<open>kostka(l,w)\<close> is the library's Kostka number: the number of semistandard Young tableaux
  of shape \<open>l\<close> in which the value \<open>i\<close> occurs \<open>w[i-1]\<close> times.  The cells holding the
  largest value form a horizontal strip at the ends of the rows; \<open>strips sh k\<close> lists the
  shapes left after removing such a strip of \<open>k\<close> cells from \<open>sh\<close>.
\<close>

fun strips :: "nat list \<Rightarrow> nat \<Rightarrow> nat list list" where
  "strips [] k = (if k = 0 then [[]] else [])"
| "strips (a # rest) k =
     concat (map (\<lambda>t. map (\<lambda>sh. (a - t) # sh) (strips rest (k - t)))
                 [0..<Suc (min k (a - (case rest of [] \<Rightarrow> 0 | b # _ \<Rightarrow> b)))])"

fun kostka_rev :: "nat list \<Rightarrow> nat list \<Rightarrow> nat" where
  "kostka_rev sh [] = (if \<forall>a \<in> set sh. a = 0 then 1 else 0)"
| "kostka_rev sh (k # ks) = sum_list (map (\<lambda>sh'. kostka_rev sh' ks) (strips sh k))"

definition kostka :: "int list \<Rightarrow> int list \<Rightarrow> int" where
  "kostka l w = int (kostka_rev (map nat l) (rev (map nat w)))"

text \<open>\<^verbatim>\<open>w = sum([[j]*r[j-1] for j in (1..n)],[])\<close>: \<open>r[j-1]\<close> copies of \<open>j\<close>, for
  \<open>j = 1..n\<close>; a list times a negative number is empty.\<close>

definition mu :: "vec \<Rightarrow> int list" where
  "mu r = concat (map (\<lambda>j. replicate (nat (r ! nat (j - 1))) j) [1..int (length r)])"

text \<open>
  \<^verbatim>\<open>
  def gdeg(r):
      n = len(r)
      p = weight(r)
      if p%n != 0:
          raise ValueError("The weight must be a multiple of the length")
      m = p//n
      l = vector([n for j in (1..m)])
      w = sum([[j]*r[j-1] for j in (1..n)],[])
      return kostka(l,w)
  \<close>
  \<^verbatim>\<open>p%n\<close> raises \<^verbatim>\<open>ZeroDivisionError\<close> for the empty vector.
\<close>

definition gdeg :: "vec \<Rightarrow> error + int" where
  "gdeg r =
     (let n = int (length r); p = weight r
      in if n = 0 then Inl ZeroDivisionError
         else if p mod n \<noteq> 0 then Inl ValueError
         else let m = p div n;
                  l = map (\<lambda>j. n) [1..m];
                  w = mu r
              in Inr (kostka l w))"

text \<open>
  \<^verbatim>\<open>
  def gHodge(m,n):
      Z,M = Vgeom(m,n)
      D = [gdeg(v) for v in Z]
      for p in range(len(M)):
          d = M[p].dimensions()[0]
          for i in range(d):
              for j in range(d):
                  M[p][i,j] = D[M[p][i,j]]
      return M
  \<close>
  Unpacking the empty list raises \<^verbatim>\<open>ValueError\<close>.
\<close>

definition gHodge_grade :: "int list \<Rightarrow> nat \<Rightarrow> int mat list \<Rightarrow> error + int mat list" where
  "gHodge_grade D p M =
     ebind (list_get M (int p)) (\<lambda>A.
       let d = nrows A
       in forM [0..<d] (\<lambda>i. forM [0..<d] (\<lambda>j M.
            ebind (get_entry M (int p) i j) (\<lambda>x.
            ebind (list_get D x) (\<lambda>y.
            set_entry M (int p) i j y)))) M)"

definition gHodge :: "int \<Rightarrow> int \<Rightarrow> error + int mat list" where
  "gHodge m n =
     ebind (Vgeom m n) (\<lambda>r.
       case r of EmptyList \<Rightarrow> Inl ValueError
       | Tuple (Z, M) \<Rightarrow>
           ebind (mapM gdeg Z) (\<lambda>D. forM [0..<length M] (gHodge_grade D) M))"

section \<open>Hilbert series and expected signatures\<close>

text \<open>
  A polynomial of \<open>ZZ[t]\<close> is the list of its coefficients, lowest degree first.  The
  quotient \<^verbatim>\<open>product([1-t^(m+j) for j in (1..n)])/product([1-t^j for j in (1..n)])\<close>
  is an element of the fraction field; \<^verbatim>\<open>R(...)\<close> converts it back to a polynomial and
  raises \<^verbatim>\<open>TypeError\<close> when the denominator does not divide the numerator.  A factor
  \<open>1 - t^e\<close> with \<open>e < 0\<close> is the fraction \<open>(t^(-e) - 1) / t^(-e)\<close>.
\<close>

type_synonym poly = "int list"

fun padd :: "poly \<Rightarrow> poly \<Rightarrow> poly" where
  "padd [] q = q"
| "padd p [] = p"
| "padd (a # p) (b # q) = (a + b) # padd p q"

fun pmul :: "poly \<Rightarrow> poly \<Rightarrow> poly" where
  "pmul [] q = []"
| "pmul (a # p) q = padd (map (\<lambda>x. a * x) q) (0 # pmul p q)"

definition pnorm :: "poly \<Rightarrow> poly" where
  "pnorm p = rev (dropWhile (\<lambda>x. x = 0) (rev p))"

definition t_pow :: "nat \<Rightarrow> poly" where
  "t_pow k = replicate k 0 @ [1]"

text \<open>Long division by a polynomial whose leading coefficient is \<open>1\<close> or \<open>-1\<close>: \<open>k\<close> steps
  remain, \<open>R\<close> is the running remainder and \<open>Q\<close> the quotient found so far.\<close>

fun pdivmod_aux :: "poly \<Rightarrow> nat \<Rightarrow> poly \<Rightarrow> poly \<Rightarrow> poly \<times> poly" where
  "pdivmod_aux D 0 R Q = (Q, R)"
| "pdivmod_aux D (Suc k) R Q =
     (let c = (R ! (k + length D - 1)) * last D;
          R' = padd R (replicate k 0 @ map (\<lambda>x. - c * x) D)
      in pdivmod_aux D k R' (c # Q))"

definition exact_quotient :: "poly \<Rightarrow> poly \<Rightarrow> error + poly" where
  "exact_quotient N D =
     (let N = pnorm N; D = pnorm D
      in if D = [] then Inl ZeroDivisionError
         else if \<bar>last D\<bar> \<noteq> 1 then Inl TypeError
         else case pdivmod_aux D (Suc (length N) - length D) N [] of
                (Q, R) \<Rightarrow> if pnorm R = [] then Inr (pnorm Q) else Inl TypeError)"

definition hilb_poly :: "int \<Rightarrow> int \<Rightarrow> error + poly" where
  "hilb_poly m n =
     (let es = map (\<lambda>j. m + j) [1..n];
          num = fold (\<lambda>e P. pmul P (if 0 \<le> e then padd [1] (map uminus (t_pow (nat e)))
                                    else padd (t_pow (nat (- e))) [-1])) es [1];
          den = fold (\<lambda>e P. if 0 \<le> e then P else pmul P (t_pow (nat (- e)))) es
                  (fold (\<lambda>j P. pmul P (padd [1] (map uminus (t_pow (nat j))))) [1..n] [1])
      in exact_quotient num den)"

text \<open>\<^verbatim>\<open>P.coefficients()\<close> lists the non-zero coefficients by increasing degree.\<close>

definition coefficients :: "poly \<Rightarrow> int list" where
  "coefficients P = filter (\<lambda>c. c \<noteq> 0) P"

text \<open>
  \<^verbatim>\<open>
  def HilbGeom(m,n):
      R.<t> = PolynomialRing(ZZ)
      return R(product([1-t^(m+j) for j in (1..n)])/product([1-t^j for j in (1..n)])).coefficients()
  def HilbArithm(m,n):
      R.<t> = PolynomialRing(ZZ)
      P = R(product([1-t^(m+j) for j in (1..n)])/product([1-t^j for j in (1..n)]))
      P = (1+t)*P
      return P.coefficients()
  \<close>
\<close>

definition HilbGeom :: "int \<Rightarrow> int \<Rightarrow> error + int list" where
  "HilbGeom m n = ebind (hilb_poly m n) (\<lambda>P. Inr (coefficients P))"

definition HilbArithm :: "int \<Rightarrow> int \<Rightarrow> error + int list" where
  "HilbArithm m n = ebind (hilb_poly m n) (\<lambda>P. Inr (coefficients (pmul [1, 1] P)))"

text \<open>
  \<^verbatim>\<open>
  def Signature(v):
      d = len(v)-1
      w = [v[i]-v[i-1] for i in (1..floor(d/2))]
      w = [1]+w
      s = [((-1)^q) * sum([(-1)^p*w[p] for p in (0..q)]) for q in (0..floor(d/2))]
      return s
  \<close>
  Every index read lies in \<open>0..d\<close>.
\<close>

definition Signature :: "int list \<Rightarrow> int list" where
  "Signature v =
     (let d = int (length v) - 1;
          w = map (\<lambda>i. v ! nat i - v ! nat (i - 1)) [1..d div 2];
          w = 1 # w
      in map (\<lambda>q. (- 1) ^ nat q * sum_list (map (\<lambda>p. (- 1) ^ nat p * w ! nat p) [0..q]))
             [0..d div 2])"

section \<open>The geometric check\<close>

text \<open>
  The names bound at the top level of the notebook to a function of \<open>(m,n)\<close> that
  returns a coefficient list.  Calling a name that is not bound raises \<^verbatim>\<open>NameError\<close>.
\<close>

definition notebook_globals :: "(string \<times> (int \<Rightarrow> int \<Rightarrow> error + int list)) list" where
  "notebook_globals = [(''HilbGeom'', HilbGeom), (''HilbArithm'', HilbArithm)]"

definition call_global :: "string \<Rightarrow> int \<Rightarrow> int \<Rightarrow> error + int list" where
  "call_global name m n =
     (case map_of notebook_globals name of None \<Rightarrow> Inl NameError | Some f \<Rightarrow> f m n)"

text \<open>
  The loop of \<^verbatim>\<open>Check_GST\<close> over the matrices: \<open>None\<close> is the early
  \<^verbatim>\<open>return H,False\<close> at a singular matrix, \<open>Some s2\<close> the signatures collected.
  \<^verbatim>\<open>h.is_singular()\<close> and \<^verbatim>\<open>QuadraticForm(h).signature()\<close> are the library's linear
  algebra, taken as parameters.
\<close>

fun signature_loop ::
  "('a mat \<Rightarrow> bool) \<Rightarrow> ('a mat \<Rightarrow> error + int) \<Rightarrow> 'a mat list \<Rightarrow> int list
    \<Rightarrow> error + int list option" where
  "signature_loop is_singular signature [] s2 = Inr (Some s2)"
| "signature_loop is_singular signature (h # hs) s2 =
     (if is_singular h then Inr None
      else ebind (signature h) (\<lambda>s. signature_loop is_singular signature hs (s2 @ [s])))"

text \<open>
  \<^verbatim>\<open>
  def Check_GST(m,n):
      s1 = Signature(HilbGeommm(m,n))
      s2 = []
      H = gHodge(m,n)
      for h in H:
          if h.is_singular():
              return H,False
          s2.append(QuadraticForm(h).signature())
      if s1 == s2:
          return H,True
      else:
          return H,False
  \<close>
\<close>

definition Check_GST ::
  "(int mat \<Rightarrow> bool) \<Rightarrow> (int mat \<Rightarrow> error + int) \<Rightarrow> int \<Rightarrow> int
    \<Rightarrow> error + (int mat list \<times> bool)" where
  "Check_GST is_singular signature m n =
     ebind (call_global ''HilbGeommm'' m n) (\<lambda>v.
       let s1 = Signature v; s2 = [] in
       ebind (gHodge m n) (\<lambda>H.
       ebind (signature_loop is_singular signature H s2) (\<lambda>r.
         case r of None \<Rightarrow> Inr (H, False)
         | Some s2 \<Rightarrow> if s1 = s2 then Inr (H, True) else Inr (H, False))))"

section \<open>The arithmetic pairing tables\<close>

text \<open>
  In \<^verbatim>\<open>Varith\<close> the element \<open>M[p]\<close> is the two-element list of the self-pairing table
  \<open>M[p][0]\<close> and the cross-pairing table \<open>M[p][1]\<close>, and \<open>Z\<close> is the two-element list of
  the pools \<open>Z[0]\<close> and \<open>Z[1]\<close>.  The state of the loops is \<open>(Z[0], Z[1], M)\<close>.
\<close>

type_synonym varith_state = "vec list \<times> vec list \<times> (int mat \<times> int mat) list"

definition get_entry0 :: "('a mat \<times> 'b mat) list \<Rightarrow> int \<Rightarrow> nat \<Rightarrow> nat \<Rightarrow> error + 'a" where
  "get_entry0 M p i j = ebind (list_get M p) (\<lambda>AB. mat_get (fst AB) i j)"

definition set_entry0 ::
  "('a mat \<times> 'b mat) list \<Rightarrow> int \<Rightarrow> nat \<Rightarrow> nat \<Rightarrow> 'a \<Rightarrow> error + ('a mat \<times> 'b mat) list" where
  "set_entry0 M p i j v =
     ebind (list_get M p) (\<lambda>AB.
     ebind (mat_set (fst AB) i j v) (\<lambda>A'. list_set M p (A', snd AB)))"

definition set_entry1 ::
  "('a mat \<times> 'b mat) list \<Rightarrow> int \<Rightarrow> nat \<Rightarrow> nat \<Rightarrow> 'b \<Rightarrow> error + ('a mat \<times> 'b mat) list" where
  "set_entry1 M p i j v =
     ebind (list_get M p) (\<lambda>AB.
     ebind (mat_set (snd AB) i j v) (\<lambda>B'. list_set M p (fst AB, B')))"

text \<open>
  \<^verbatim>\<open>
  z = l[i]+l[j]+(n*m+1-2*p)*e
  if z in Z[0]:
      M[p][0][i,j] = Z[0].index(z)
      M[p][0][j,i] = M[p][0][i,j]
  else:
      Z[0].append(z)
      M[p][0][i,j] = len(Z[0])-1
      M[p][0][j,i] = M[p][0][i,j]
  \<close>
\<close>

definition Varith_self ::
  "int \<Rightarrow> int \<Rightarrow> vec \<Rightarrow> vec list \<Rightarrow> int \<Rightarrow> nat \<Rightarrow> nat \<Rightarrow> varith_state \<Rightarrow> error + varith_state" where
  "Varith_self m n e l p i j s =
     (case s of (Z0, Z1, M) \<Rightarrow>
        ebind (vadd (l ! i) (l ! j)) (\<lambda>a.
        ebind (vadd a (smul (n * m + 1 - 2 * p) e)) (\<lambda>z.
          if z \<in> set Z0 then
            ebind (index_of Z0 z) (\<lambda>k.
            ebind (set_entry0 M p i j (int k)) (\<lambda>M.
            ebind (get_entry0 M p i j) (\<lambda>x.
            ebind (set_entry0 M p j i x) (\<lambda>M. Inr (Z0, Z1, M)))))
          else
            let Z0 = Z0 @ [z] in
            ebind (set_entry0 M p i j (int (length Z0) - 1)) (\<lambda>M.
            ebind (get_entry0 M p i j) (\<lambda>x.
            ebind (set_entry0 M p j i x) (\<lambda>M. Inr (Z0, Z1, M)))))))"

text \<open>
  \<^verbatim>\<open>
  z = l[i]+l2[j]+(n*m+1-2*p)*e
  if z in Z[1]:
      M[p][1][i,j] = Z[1].index(z)
  else:
      Z[1].append(z)
      M[p][1][i,j] = len(Z[1])-1
  \<close>
\<close>

definition Varith_cross ::
  "int \<Rightarrow> int \<Rightarrow> vec \<Rightarrow> vec list \<Rightarrow> vec list \<Rightarrow> int \<Rightarrow> nat \<Rightarrow> nat
    \<Rightarrow> varith_state \<Rightarrow> error + varith_state" where
  "Varith_cross m n e l l2 p i j s =
     (case s of (Z0, Z1, M) \<Rightarrow>
        ebind (vadd (l ! i) (l2 ! j)) (\<lambda>a.
        ebind (vadd a (smul (n * m + 1 - 2 * p) e)) (\<lambda>z.
          if z \<in> set Z1 then
            ebind (index_of Z1 z) (\<lambda>k.
            ebind (set_entry1 M p i j (int k)) (\<lambda>M. Inr (Z0, Z1, M)))
          else
            let Z1 = Z1 @ [z] in
            ebind (set_entry1 M p i j (int (length Z1) - 1)) (\<lambda>M. Inr (Z0, Z1, M)))))"

text \<open>One pass of the loop \<^verbatim>\<open>for p in (1..floor((n*m+1)/2))\<close>: the self-pairings of
  \<open>l = L[p]\<close>, then the pairings of \<open>l\<close> with \<open>l2 = L[p-1]\<close>.\<close>

definition Varith_grade ::
  "int \<Rightarrow> int \<Rightarrow> vec \<Rightarrow> vec list list \<Rightarrow> int \<Rightarrow> varith_state \<Rightarrow> error + varith_state" where
  "Varith_grade m n e L p s =
     ebind (list_get L p) (\<lambda>l.
     ebind (forM [0..<length l] (\<lambda>i. forM [i..<length l] (\<lambda>j. Varith_self m n e l p i j)) s) (\<lambda>s.
     ebind (list_get L (p - 1)) (\<lambda>l2.
       forM [0..<length l] (\<lambda>i. forM [0..<length l2] (\<lambda>j. Varith_cross m n e l l2 p i j)) s)))"

text \<open>
  \<^verbatim>\<open>
  def Varith(m,n):
      if (m<0) or (n<0):
          return []
      L = B(m,n)
      e = vector([1]+[0]*(n-1))
      Z = [[(n*m+1)*e],[]]
      M = [[matrix(QQ,1,1,[0]),matrix(QQ,0)]]+[[matrix(len(L[p])),matrix(len(L[p]),len(L[p-1]))] for p in (1..floor((n*m+1)/2))]
      for p in (1..floor((n*m+1)/2)):
          ...
      return Z,M
  \<close>
  The only entry of the two matrices of \<open>M[0]\<close> is the integer \<open>0\<close>; they are kept with the
  integer matrices of the other grades.
\<close>

definition Varith_tables :: "vec list list \<Rightarrow> int \<Rightarrow> error + (int mat \<times> int mat)" where
  "Varith_tables L p =
     ebind (list_get L p) (\<lambda>l.
     ebind (list_get L (p - 1)) (\<lambda>l2.
       Inr (zero_matrix (length l) (length l), zero_matrix (length l) (length l2))))"

definition Varith :: "int \<Rightarrow> int \<Rightarrow> error + varith_state pyret" where
  "Varith m n =
     (if m < 0 \<or> n < 0 then Inr EmptyList
      else let L = B m n;
               e = 1 # replicate (nat (n - 1)) 0;
               Z0 = [smul (n * m + 1) e];
               Z1 = []
           in ebind (mapM (Varith_tables L) [1..(n * m + 1) div 2]) (\<lambda>Ms.
              let M = ([[0]], []) # Ms in
              ebind (forM [1..(n * m + 1) div 2] (Varith_grade m n e L) (Z0, Z1, M)) (\<lambda>s.
                Inr (Tuple s))))"

section \<open>The arithmetic degree\<close>

text \<open>
  \<^verbatim>\<open>
  def Tam(m,n):
      L = list()
      for a in (0..m-1):
          for j in (0..n-1):
              for b in (j+1..min(n-1,m+n-a-j-1)):
                  L.append(vector((a,b,j)))
      return L
  \<close>
\<close>

definition Tam :: "int \<Rightarrow> int \<Rightarrow> (int \<times> int \<times> int) list" where
  "Tam m n =
     concat (map (\<lambda>a. concat (map (\<lambda>j. map (\<lambda>b. (a, b, j))
                                      [j + 1..min (n - 1) (m + n - a - j - 1)])
                           [0..n - 1]))
            [0..m - 1])"

text \<open>\<^verbatim>\<open>Partition(l)\<close> raises \<^verbatim>\<open>ValueError\<close> unless \<open>l\<close> is a weakly decreasing list of
  non-negative integers; \<^verbatim>\<open>conjugate\<close> transposes the diagram.\<close>

definition Partition :: "int list \<Rightarrow> error + int list" where
  "Partition l =
     (if (\<forall>x \<in> set l. 0 \<le> x) \<and> sorted (rev l) then Inr (filter (\<lambda>x. x \<noteq> 0) l)
      else Inl ValueError)"

definition conjugate :: "int list \<Rightarrow> int list" where
  "conjugate l =
     map (\<lambda>i. int (length (filter (\<lambda>x. i \<le> x) l))) [1..(case l of [] \<Rightarrow> 0 | x # _ \<Rightarrow> x)]"

text \<open>
  One pass of the loop \<^verbatim>\<open>for (a,b,j) in T\<close> of \<^verbatim>\<open>adeg\<close>:
  \<^verbatim>\<open>
  l = [sum(x) for x in zip([m-1]*(n-1)+[a],[1]*b+[0]*(n-b),[m+n-a-b-j]+[1]*j+[0]*(n-j-1))]
  l = Partition(l).conjugate()
  s += (-1)^(n+b+j) * kostka(l,w) * (H[m+n-a-j-1] - H[m+n-a-b-1])
  \<close>
\<close>

definition adeg_term ::
  "int \<Rightarrow> int \<Rightarrow> int list \<Rightarrow> rat list \<Rightarrow> int \<times> int \<times> int \<Rightarrow> rat \<Rightarrow> error + rat" where
  "adeg_term m n w H abj s =
     (case abj of (a, b, j) \<Rightarrow>
        let l = map (\<lambda>(x, y, z). x + y + z)
                  (zip (replicate (nat (n - 1)) (m - 1) @ [a])
                    (zip (replicate (nat b) 1 @ replicate (nat (n - b)) 0)
                         ([m + n - a - b - j] @ replicate (nat j) 1 @ replicate (nat (n - j - 1)) 0)))
        in ebind (Partition l) (\<lambda>l.
           let l = conjugate l in
           ebind (list_get H (m + n - a - j - 1)) (\<lambda>h1.
           ebind (list_get H (m + n - a - b - 1)) (\<lambda>h2.
             Inr (s + (if even (n + b + j) then 1 else - 1) * of_int (kostka l w) * (h1 - h2))))))"

text \<open>
  \<^verbatim>\<open>
  def adeg(r,T=None,H=None):
      n = len(r)
      p = weight(r)
      if (p-1)%n != 0:
          raise ValueError("The weight must be congruent to one modulo the length")
      m = (p-1)//n
      if T is None:
          T = Tam(m,n)
      if H is None:
          H = harm_list(m+n-1)
      w = sum([[j]*r[j-1] for j in (1..n)],[])
      s = 0
      l = [n]*m+[1]
      s += kostka(l,w) * sum([H[k] for k in (n..m+n-1)])
      for (a,b,j) in T:
          ...
      return s/2
  \<close>
\<close>

definition adeg :: "vec \<Rightarrow> (int \<times> int \<times> int) list option \<Rightarrow> rat list option \<Rightarrow> error + rat" where
  "adeg r T H =
     (let n = int (length r); p = weight r
      in if n = 0 then Inl ZeroDivisionError
         else if (p - 1) mod n \<noteq> 0 then Inl ValueError
         else let m = (p - 1) div n;
                  T = (case T of None \<Rightarrow> Tam m n | Some T \<Rightarrow> T);
                  H = (case H of None \<Rightarrow> harm_list (m + n - 1) | Some H \<Rightarrow> H);
                  w = mu r;
                  s = 0;
                  l = replicate (nat m) n @ [1]
              in ebind (mapM (list_get H) [n..m + n - 1]) (\<lambda>hs.
                 let s = s + of_int (kostka l w) * sum_list hs in
                 ebind (forM T (adeg_term m n w H) s) (\<lambda>s. Inr (s / 2))))"

text \<open>
  Calls of the two degree functions with a list of positional arguments: \<^verbatim>\<open>def gdeg(r)\<close>
  takes exactly one, \<^verbatim>\<open>def adeg(r,T=None,H=None)\<close> one to three; any other number of
  arguments raises \<^verbatim>\<open>TypeError\<close>, as does an argument that is not of the kind the body
  expects.
\<close>

datatype pyval = Vec vec | Triples "(int \<times> int \<times> int) list" | Rats "rat list" | NoneVal

fun gdeg_call :: "pyval list \<Rightarrow> error + rat" where
  "gdeg_call [Vec r] = ebind (gdeg r) (\<lambda>d. Inr (of_int d))"
| "gdeg_call args = Inl TypeError"

fun adeg_call :: "pyval list \<Rightarrow> error + rat" where
  "adeg_call [Vec r] = adeg r None None"
| "adeg_call [Vec r, NoneVal] = adeg r None None"
| "adeg_call [Vec r, Triples T] = adeg r (Some T) None"
| "adeg_call [Vec r, NoneVal, NoneVal] = adeg r None None"
| "adeg_call [Vec r, Triples T, NoneVal] = adeg r (Some T) None"
| "adeg_call [Vec r, NoneVal, Rats H] = adeg r None (Some H)"
| "adeg_call [Vec r, Triples T, Rats H] = adeg r (Some T) (Some H)"
| "adeg_call args = Inl TypeError"

section \<open>The arithmetic bilinear forms\<close>

text \<open>
  The loops of \<^verbatim>\<open>aHodge\<close> that replace each entry of a \<open>d1 \<times> d2\<close> matrix by a value
  computed from it:
  \<^verbatim>\<open>
  for i in range(d1):
      for j in range(d2):
          A[i,j] = f(A[i,j])
  \<close>
\<close>

definition replace_loop :: "nat \<Rightarrow> nat \<Rightarrow> ('a \<Rightarrow> error + 'a) \<Rightarrow> 'a mat \<Rightarrow> error + 'a mat" where
  "replace_loop d1 d2 f A =
     forM [0..<d1] (\<lambda>i. forM [0..<d2] (\<lambda>j A.
       ebind (mat_get A i j) (\<lambda>x. ebind (f x) (\<lambda>y. mat_set A i j y)))) A"

definition mat_transpose :: "'a mat \<Rightarrow> 'a mat" where
  "mat_transpose A = map (\<lambda>j. map (\<lambda>r. r ! j) A) [0..<ncols A]"

text \<open>\<^verbatim>\<open>block_matrix([[A,B],[B.transpose(),0]])\<close>: the blocks of a row must have the same
  number of rows (\<^verbatim>\<open>ValueError\<close> otherwise); the \<open>0\<close> stands for the zero block that
  completes the square.\<close>

definition block_matrix :: "('a::zero) mat \<Rightarrow> 'a mat \<Rightarrow> error + 'a mat" where
  "block_matrix A Bm =
     (if nrows A = nrows Bm
      then Inr (map2 (@) A Bm @ map (\<lambda>r. r @ replicate (ncols Bm) 0) (mat_transpose Bm))
      else Inl ValueError)"

definition mat_scale :: "rat \<Rightarrow> rat mat \<Rightarrow> rat mat" where
  "mat_scale c A = map (map (\<lambda>x. c * x)) A"

text \<open>
  In \<^verbatim>\<open>aHodge\<close> the tables are converted to matrices over \<open>QQ\<close> before their entries are
  read as positions in the lists \<open>Darith\<close> and \<open>Dgeom\<close>.  How the library turns a rational
  number into a list position is the parameter \<open>as_index\<close>.

  One pass of the loop \<^verbatim>\<open>for p in (1..len(M)-1)\<close>:
  \<^verbatim>\<open>
  d = M[p][0].dimensions()[0]
  M[p][0] = matrix(QQ,M[p][0])
  for i in range(d):
      for j in range(d):
          M[p][0][i,j] = Darith[M[p][0][i,j]]
  d1,d2 = M[p][1].dimensions()
  M[p][1] = matrix(QQ,M[p][1])
  for i in range(d1):
      for j in range(d2):
          M[p][1][i,j] = Dgeom[M[p][1][i,j]]/2
  M[p] = (-1)^p*block_matrix([[M[p][0],M[p][1]],[M[p][1].transpose(),0]])
  \<close>
  Only \<open>M[p]\<close> is read and written, so the pass computes the new \<open>M[p]\<close> from the old.
\<close>

definition aHodge_grade ::
  "(rat \<Rightarrow> error + int) \<Rightarrow> rat list \<Rightarrow> int list \<Rightarrow> (int mat \<times> int mat) list \<Rightarrow> int
    \<Rightarrow> error + rat mat" where
  "aHodge_grade as_index Darith Dgeom M p =
     ebind (list_get M p) (\<lambda>AB.
       let d = nrows (fst AB);
           A = map (map of_int) (fst AB)
       in ebind (replace_loop d d (\<lambda>x. ebind (as_index x) (list_get Darith)) A) (\<lambda>A.
          let d1 = nrows (snd AB); d2 = ncols (snd AB);
              Bm = map (map of_int) (snd AB)
          in ebind (replace_loop d1 d2
                     (\<lambda>x. ebind (as_index x) (\<lambda>k. ebind (list_get Dgeom k) (\<lambda>g. Inr (of_int g / 2))))
                     Bm) (\<lambda>Bm.
             ebind (block_matrix A Bm) (\<lambda>H. Inr (mat_scale ((- 1) ^ nat p) H)))))"

text \<open>
  \<^verbatim>\<open>
  def aHodge(m,n):
      Z,M = Varith(m,n)
      T = Tam(m,n)
      H = harm_list(m+n-1)
      Darith = [adeg(v,T,H) for v in Z[0]]
      Dgeom = [gdeg(v) for v in Z[1]]
      M[0] = matrix(QQ,[Darith[M[0][0][0,0]]])
      for p in (1..len(M)-1):
          ...
      return M
  \<close>
\<close>

definition aHodge :: "(rat \<Rightarrow> error + int) \<Rightarrow> int \<Rightarrow> int \<Rightarrow> error + rat mat list" where
  "aHodge as_index m n =
     ebind (Varith m n) (\<lambda>r.
       case r of EmptyList \<Rightarrow> Inl ValueError
       | Tuple (Z0, Z1, M) \<Rightarrow>
           let T = Tam m n;
               H = harm_list (m + n - 1)
           in ebind (mapM (\<lambda>v. adeg v (Some T) (Some H)) Z0) (\<lambda>Darith.
              ebind (mapM gdeg Z1) (\<lambda>Dgeom.
              ebind (get_entry0 M 0 0 0) (\<lambda>x.
              ebind (as_index (of_int x)) (\<lambda>k.
              ebind (list_get Darith k) (\<lambda>y.
              let M0 = [[y]] in
              ebind (mapM (aHodge_grade as_index Darith Dgeom M) [1..int (length M) - 1]) (\<lambda>Ms.
                Inr (M0 # Ms))))))))"

text \<open>The index conversion under which an integral rational is the position it denotes.\<close>

definition integral_index :: "rat \<Rightarrow> error + int" where
  "integral_index q = (if of_int \<lfloor>q\<rfloor> = q then Inr \<lfloor>q\<rfloor> else Inl TypeError)"

section \<open>Notions used to state the properties\<close>

text \<open>The vectors of \<open>n\<close> non-negative integers with coordinate sum at most \<open>m\<close>, and the
  list \<open>l\<close> that \<^verbatim>\<open>B\<close> builds before sorting it.\<close>

definition basis_vectors :: "int \<Rightarrow> int \<Rightarrow> vec set" where
  "basis_vectors m n = {v. length v = nat n \<and> (\<forall>x\<in>set v. 0 \<le> x) \<and> sum_list v \<le> m}"

definition basis_list :: "int \<Rightarrow> int \<Rightarrow> vec list" where
  "basis_list m n = concat (map (\<lambda>j. IntegerVectors j n) [0..m])"

definition pool_add :: "'a list \<Rightarrow> 'a \<Rightarrow> 'a list" where
  "pool_add Z z = (if z \<in> set Z then Z else Z @ [z])"

definition first_pos :: "'a list \<Rightarrow> 'a \<Rightarrow> nat" where
  "first_pos Z z = length (takeWhile (\<lambda>x. x \<noteq> z) Z)"

definition mat_upd :: "'a mat \<Rightarrow> nat \<Rightarrow> nat \<Rightarrow> 'a \<Rightarrow> 'a mat" where
  "mat_upd A i j v = A[i := (A ! i)[j := v]]"

definition is_matrix :: "nat \<Rightarrow> nat \<Rightarrow> 'a mat \<Rightarrow> bool" where
  "is_matrix r c A = (length A = r \<and> (\<forall>i<r. length (A ! i) = c))"

definition pooled :: "vec \<Rightarrow> vec \<Rightarrow> int \<Rightarrow> int \<Rightarrow> vec" where
  "pooled v w c n = map2 (+) (map2 (+) v w) (smul c (1 # replicate (nat (n - 1)) 0))"

definition Vgeom_inv :: "int \<Rightarrow> int \<Rightarrow> (nat \<times> nat \<times> nat) set \<Rightarrow> vec list \<times> int mat list \<Rightarrow> bool" where
  "Vgeom_inv m n S s = (case s of (Z, M) \<Rightarrow>
     distinct Z \<and> length M = nat ((n * m) div 2 + 1) \<and>
     (\<forall>p<length M. is_matrix (length (B m n ! p)) (length (B m n ! p)) (M ! p)) \<and>
     (\<forall>(p, i, j)\<in>S.
         pooled (B m n ! p ! i) (B m n ! p ! j) (n * m - 2 * int p) n \<in> set Z \<and>
         M ! p ! i ! j = int (first_pos Z (pooled (B m n ! p ! i) (B m n ! p ! j) (n * m - 2 * int p) n)) \<and>
         M ! p ! j ! i = M ! p ! i ! j))"

definition Vgeom_done :: "int \<Rightarrow> int \<Rightarrow> (nat \<times> nat \<times> nat) set" where
  "Vgeom_done m n = {(p, i, j) | p i j. int p \<le> (n * m) div 2 \<and> i \<le> j \<and> j < length (B m n ! p)}"

definition Varith_inv ::
  "int \<Rightarrow> int \<Rightarrow> (nat \<times> nat \<times> nat) set \<Rightarrow> (nat \<times> nat \<times> nat) set \<Rightarrow> varith_state \<Rightarrow> bool" where
  "Varith_inv m n S0 S1 s = (case s of (Z0, Z1, M) \<Rightarrow>
     distinct Z0 \<and> distinct Z1 \<and> length M = nat ((n * m + 1) div 2 + 1) \<and>
     M ! 0 = ([[0]], []) \<and> Z0 \<noteq> [] \<and> Z0 ! 0 = smul (n * m + 1) (1 # replicate (nat (n - 1)) 0) \<and>
     (\<forall>p. 0 < p \<and> p < length M \<longrightarrow>
        is_matrix (length (B m n ! p)) (length (B m n ! p)) (fst (M ! p)) \<and>
        is_matrix (length (B m n ! p)) (length (B m n ! (p - 1))) (snd (M ! p))) \<and>
     (\<forall>(p, i, j)\<in>S0.
         pooled (B m n ! p ! i) (B m n ! p ! j) (n * m + 1 - 2 * int p) n \<in> set Z0 \<and>
         fst (M ! p) ! i ! j = int (first_pos Z0 (pooled (B m n ! p ! i) (B m n ! p ! j) (n * m + 1 - 2 * int p) n)) \<and>
         fst (M ! p) ! j ! i = fst (M ! p) ! i ! j) \<and>
     (\<forall>(p, i, j)\<in>S1.
         pooled (B m n ! p ! i) (B m n ! (p - 1) ! j) (n * m + 1 - 2 * int p) n \<in> set Z1 \<and>
         snd (M ! p) ! i ! j = int (first_pos Z1 (pooled (B m n ! p ! i) (B m n ! (p - 1) ! j) (n * m + 1 - 2 * int p) n))))"

definition Varith_done0 :: "int \<Rightarrow> int \<Rightarrow> (nat \<times> nat \<times> nat) set" where
  "Varith_done0 m n = {(p, i, j) | p i j. 0 < p \<and> int p \<le> (n * m + 1) div 2 \<and> i \<le> j \<and> j < length (B m n ! p)}"

definition Varith_done1 :: "int \<Rightarrow> int \<Rightarrow> (nat \<times> nat \<times> nat) set" where
  "Varith_done1 m n = {(p, i, j) | p i j. 0 < p \<and> int p \<le> (n * m + 1) div 2 \<and>
      i < length (B m n ! p) \<and> j < length (B m n ! (p - 1))}"

definition names_pool_entry :: "vec list \<Rightarrow> int \<Rightarrow> vec \<Rightarrow> bool" where
  "names_pool_entry Z k z =
     (0 \<le> k \<and> nat k < length Z \<and> Z ! nat k = z \<and> (\<forall>k'<nat k. Z ! k' \<noteq> z))"

definition tam_shape :: "int \<Rightarrow> int \<Rightarrow> int \<Rightarrow> int \<Rightarrow> int \<Rightarrow> int list" where
  "tam_shape m n a b j =
     map (\<lambda>(x, y, z). x + y + z)
       (zip (replicate (nat (n - 1)) (m - 1) @ [a])
         (zip (replicate (nat b) 1 @ replicate (nat (n - b)) 0)
              ([m + n - a - b - j] @ replicate (nat j) 1 @ replicate (nat (n - j - 1)) 0)))"

definition replaced ::
  "nat \<Rightarrow> nat \<Rightarrow> ('a \<Rightarrow> error + 'a) \<Rightarrow> 'a mat \<Rightarrow> (nat \<Rightarrow> nat \<Rightarrow> bool) \<Rightarrow> 'a mat \<Rightarrow> bool" where
  "replaced d1 d2 f A done A' =
     (is_matrix d1 d2 A' \<and>
      (\<forall>a<d1. \<forall>b<d2. if done a b then f (A ! a ! b) = Inr (A' ! a ! b) else A' ! a ! b = A ! a ! b))"

definition row_done :: "nat \<Rightarrow> nat \<Rightarrow> nat \<Rightarrow> nat \<Rightarrow> bool" where
  "row_done i x a b = (a < i \<or> (a = i \<and> b < x))"

definition pool_ok :: "int \<Rightarrow> int \<Rightarrow> varith_state \<Rightarrow> bool" where
  "pool_ok m n s = (case s of (Z0, Z1, M) \<Rightarrow>
     (\<forall>v\<in>set Z0. length v = nat n \<and> weight v = n * m + 1) \<and>
     (\<forall>v\<in>set Z1. length v = nat n \<and> weight v = n * m))"

definition adeg_val :: "vec \<Rightarrow> rat" where
  "adeg_val v = (case adeg v None None of Inr q \<Rightarrow> q | Inl e \<Rightarrow> 0)"

definition gdeg_val :: "vec \<Rightarrow> int" where
  "gdeg_val v = (case gdeg v of Inr d \<Rightarrow> d | Inl e \<Rightarrow> 0)"

definition arith_block :: "vec list \<Rightarrow> int mat \<Rightarrow> rat mat" where
  "arith_block Z0 A = map (map (\<lambda>k. adeg_val (Z0 ! nat k))) A"

definition geom_block :: "vec list \<Rightarrow> int mat \<Rightarrow> rat mat" where
  "geom_block Z1 Bm = map (map (\<lambda>k. of_int (gdeg_val (Z1 ! nat k)) / 2)) Bm"

section \<open>Degenerate bounds\<close>

text \<open>
  Claim C9.  For integers \<open>m, n\<close> with \<open>m < 0\<close> or \<open>n < 0\<close>, the basis enumerator
  \<open>B(m,n)\<close> returns the empty list, and so does \<open>Varith(m,n)\<close>; neither raises.
\<close>

theorem C9_negative_bounds_empty:
  assumes "m < 0 \<or> n < 0"
  shows "B m n = [] \<and> Varith m n = Inr EmptyList"
  using assms by (simp add: B_def Varith_def)

theorem C9_negative_bounds_empty_witness:
  "((- 1 :: int) < 0 \<or> (2 :: int) < 0) \<and> B (- 1) 2 = [] \<and> Varith (- 1) 2 = Inr EmptyList"
  using C9_negative_bounds_empty [of "- 1" 2] by simp

section \<open>The geometric check and its misspelt callee\<close>

text \<open>
  Claim C1.  The claim is that \<open>Check_GST(m,n)\<close> returns a pair \<open>(H, flag)\<close> for every
  \<open>m \<ge> 0\<close> and \<open>n \<ge> 1\<close>.  The first statement of \<open>Check_GST\<close> calls \<open>HilbGeommm\<close>, a
  name the notebook never binds (the function defined is \<open>HilbGeom\<close>), so every call
  raises \<open>NameError\<close> before any matrix is assembled, whatever the linear-algebra
  routines are.
\<close>

theorem C1_Check_GST_raises_NameError:
  "Check_GST is_singular signature m n = Inl NameError"
  by (simp add: Check_GST_def call_global_def notebook_globals_def ebind_def)

text \<open>
  Claim C5.  For \<open>(m,n) = (1,1)\<close> the basis has one vector in grade \<open>0\<close> and one in grade
  \<open>1\<close>, and \<open>gHodge(1,1)\<close> is the single matrix \<open>[[1]]\<close>; but \<open>Check_GST(1,1)\<close> does not
  return \<open>true\<close>: it raises \<open>NameError\<close>, for the reason given under C1.
\<close>

theorem C5_small_case_1_1:
  "B 1 1 = [[[0]], [[1]]] \<and> gHodge 1 1 = Inr [[[1]]]
   \<and> Check_GST is_singular signature 1 1 = Inl NameError"
proof -
  have b: "B 1 1 = [[[0]], [[1]]]" by code_simp
  have g: "gHodge 1 1 = Inr [[[1]]]" by code_simp
  have c: "Check_GST is_singular signature 1 1 = Inl NameError"
    by (simp add: Check_GST_def call_global_def notebook_globals_def ebind_def)
  from b g c show ?thesis by simp
qed

section \<open>Ranges and weights\<close>

lemma upto_0_int: "[0..int k] = map int [0..<Suc k]"
proof (induction k)
  case 0 show ?case by (simp add: upto_rec1)
next
  case (Suc k)
  have "[0..int (Suc k)] = [0..int k] @ [int (Suc k)]"
    using upto_rec2 [of 0 "int (Suc k)"] by simp
  with Suc show ?case by simp
qed

lemma upto_1_int: "[1..int k] = map (\<lambda>i. int (Suc i)) [0..<k]"
proof (induction k)
  case 0 show ?case by simp
next
  case (Suc k)
  have "[1..int (Suc k)] = [1..int k] @ [int (Suc k)]"
    using upto_rec2 [of 1 "int (Suc k)"] by simp
  with Suc show ?case by simp
qed

lemma weight_sum: "weight v = (\<Sum>i<length v. v ! i * int (Suc i))"
proof -
  have "weight v = sum_list (map (\<lambda>i. v ! i * int (Suc i)) [0..<length v])"
    unfolding weight_def upto_1_int by (simp add: comp_def)
  also have "\<dots> = (\<Sum>i<length v. v ! i * int (Suc i))"
    by (simp add: interv_sum_list_conv_sum_set_nat atLeast0LessThan)
  finally show ?thesis .
qed

lemma set_IntegerVectors_nat_Suc:
  "set (IntegerVectors_nat j (Suc n)) =
     (\<Union>i\<in>{..j}. (#) (int i) ` set (IntegerVectors_nat (j - i) n))"
  by (auto simp del: upt_Suc simp: less_Suc_eq_le)

declare IntegerVectors_nat.simps(2) [simp del]

lemma set_IntegerVectors_nat:
  "set (IntegerVectors_nat j n) = {v. length v = n \<and> (\<forall>x\<in>set v. 0 \<le> x) \<and> sum_list v = int j}"
proof (induction n arbitrary: j)
  case 0
  show ?case by auto
next
  case (Suc n)
  show ?case
  proof (rule set_eqI, rule iffI)
    fix w assume "w \<in> set (IntegerVectors_nat j (Suc n))"
    then obtain i v where i: "i \<le> j" and v: "v \<in> set (IntegerVectors_nat (j - i) n)" and w: "w = int i # v"
      unfolding set_IntegerVectors_nat_Suc by auto
    from v Suc have "length v = n" "\<forall>x\<in>set v. 0 \<le> x" "sum_list v = int (j - i)" by auto
    with i w show "w \<in> {v. length v = Suc n \<and> (\<forall>x\<in>set v. 0 \<le> x) \<and> sum_list v = int j}"
      by auto
  next
    fix w assume "w \<in> {v. length v = Suc n \<and> (\<forall>x\<in>set v. 0 \<le> x) \<and> sum_list v = int j}"
    then have l: "length w = Suc n" and nn: "\<forall>x\<in>set w. 0 \<le> x" and s: "sum_list w = int j" by auto
    from l obtain x v where w: "w = x # v" by (cases w) auto
    from nn w have x0: "0 \<le> x" and vn: "\<forall>y\<in>set v. 0 \<le> y" by auto
    from vn have sv: "0 \<le> sum_list v" by (simp add: sum_list_nonneg)
    define i where "i = nat x"
    from x0 have xi: "x = int i" by (simp add: i_def)
    from s w sv xi have ij: "i \<le> j" and sv': "sum_list v = int (j - i)" by auto
    from l w vn sv' Suc have "v \<in> set (IntegerVectors_nat (j - i) n)" by auto
    with ij xi w show "w \<in> set (IntegerVectors_nat j (Suc n))"
      unfolding set_IntegerVectors_nat_Suc by auto
  qed
qed

lemma distinct_concat_map:
  assumes "distinct xs" and "\<And>x. x \<in> set xs \<Longrightarrow> distinct (f x)"
    and "\<And>x y. x \<in> set xs \<Longrightarrow> y \<in> set xs \<Longrightarrow> x \<noteq> y \<Longrightarrow> set (f x) \<inter> set (f y) = {}"
  shows "distinct (concat (map f xs))"
  using assms by (induction xs) auto

lemma distinct_IntegerVectors_nat: "distinct (IntegerVectors_nat j n)"
proof (induction n arbitrary: j)
  case 0 show ?case by simp
next
  case (Suc n)
  show ?case unfolding IntegerVectors_nat.simps
  proof (rule distinct_concat_map)
    show "distinct (rev [0..<Suc j])" by simp
  next
    fix i show "distinct (map ((#) (int i)) (IntegerVectors_nat (j - i) n))"
      using Suc by (simp add: distinct_map)
  next
    fix x y :: nat assume "x \<noteq> y"
    then show "set (map ((#) (int x)) (IntegerVectors_nat (j - x) n)) \<inter>
      set (map ((#) (int y)) (IntegerVectors_nat (j - y) n)) = {}" by auto
  qed
qed

lemma length_IntegerVectors_nat_Suc:
  "length (IntegerVectors_nat j (Suc n)) = (\<Sum>k\<le>j. length (IntegerVectors_nat k n))"
proof -
  have "length (IntegerVectors_nat j (Suc n)) =
      sum_list (map (\<lambda>i. length (IntegerVectors_nat (j - i) n)) (rev [0..<Suc j]))"
    by (simp add: IntegerVectors_nat.simps(2) length_concat comp_def rev_map [symmetric] del: upt_Suc)
  also have "\<dots> = sum_list (map (\<lambda>i. length (IntegerVectors_nat (j - i) n)) [0..<Suc j])"
    by (simp only: rev_map [symmetric] sum_list_rev)
  also have "\<dots> = (\<Sum>i<Suc j. length (IntegerVectors_nat (Suc j - Suc i) n))"
    by (simp add: interv_sum_list_conv_sum_set_nat atLeast0LessThan del: upt_Suc)
  also have "\<dots> = (\<Sum>i<Suc j. length (IntegerVectors_nat i n))"
    by (rule sum.nat_diff_reindex)
  finally show ?thesis by (simp add: lessThan_Suc_atMost)
qed

lemma sum_length_IntegerVectors_nat:
  "(\<Sum>k\<le>j. length (IntegerVectors_nat k n)) = (j + n) choose n"
proof (induction n arbitrary: j)
  case 0
  have "(\<Sum>k\<le>j. length (IntegerVectors_nat k 0)) = (\<Sum>k\<le>j. if k = 0 then 1 else 0)"
    by (rule sum.cong) auto
  then show ?case by simp
next
  case (Suc n)
  have "(\<Sum>k\<le>j. length (IntegerVectors_nat k (Suc n))) = (\<Sum>k\<le>j. (k + n) choose n)"
    by (simp only: length_IntegerVectors_nat_Suc Suc)
  also have "\<dots> = (\<Sum>k\<le>j. (n + k) choose k)"
    by (rule sum.cong) (auto simp: binomial_symmetric [of n] add.commute)
  also have "\<dots> = Suc (n + j) choose j" by (rule sum_choose_lower)
  also have "\<dots> = (j + Suc n) choose Suc n"
    using binomial_symmetric [of j "Suc (n + j)"] by (simp add: add.commute)
  finally show ?case .
qed

section \<open>Grouping a sorted list\<close>

lemma concat_groupby: "concat (groupby f xs) = xs"
  by (induction f xs rule: groupby.induct) auto

lemma groupby_nonempty: "[] \<notin> set (groupby f xs)"
  by (induction f xs rule: groupby.induct) auto

lemma groupby_key: "g \<in> set (groupby f xs) \<Longrightarrow> x \<in> set g \<Longrightarrow> f x = f (hd g)"
  by (induction f xs rule: groupby.induct) (auto dest: set_takeWhileD)

lemma dropWhile_key_greater:
  fixes f :: "'a \<Rightarrow> 'k::linorder"
  shows "sorted (map f xs) \<Longrightarrow> \<forall>z\<in>set xs. a \<le> f z \<Longrightarrow> y \<in> set (dropWhile (\<lambda>y. f y = a) xs) \<Longrightarrow> a < f y"
proof (induction xs)
  case Nil then show ?case by simp
next
  case (Cons x xs)
  show ?case
  proof (cases "f x = a")
    case True with Cons show ?thesis by auto
  next
    case False
    with Cons.prems have ax: "a < f x" by auto
    from Cons.prems(3) False have "y = x \<or> y \<in> set xs" by auto
    with Cons.prems(1) ax show ?thesis by auto
  qed
qed

lemma sorted_map_dropWhile:
  fixes f :: "'a \<Rightarrow> 'k::linorder"
  shows "sorted (map f xs) \<Longrightarrow> sorted (map f (dropWhile P xs))"
  by (induction xs) auto

lemma groupby_subset: "g \<in> set (groupby f xs) \<Longrightarrow> set g \<subseteq> set xs"
proof -
  assume "g \<in> set (groupby f xs)"
  then have "set g \<subseteq> set (concat (groupby f xs))" by auto
  then show ?thesis by (simp add: concat_groupby)
qed

lemma groupby_keys_sorted:
  fixes f :: "'a \<Rightarrow> 'k::linorder"
  shows "sorted (map f xs) \<Longrightarrow> sorted_wrt (<) (map (\<lambda>g. f (hd g)) (groupby f xs))"
proof (induction f xs rule: groupby.induct)
  case (1 f) show ?case by simp
next
  case (2 f x xs)
  let ?r = "dropWhile (\<lambda>y. f y = f x) xs"
  from "2.prems" have s: "sorted (map f xs)" and le: "\<forall>z\<in>set xs. f x \<le> f z" by auto
  have "sorted (map f ?r)" using s by (rule sorted_map_dropWhile)
  then have ih: "sorted_wrt (<) (map (\<lambda>g. f (hd g)) (groupby f ?r))" by (rule "2.IH")
  have "f x < f (hd g)" if g: "g \<in> set (groupby f ?r)" for g
  proof -
    from g groupby_nonempty [of f ?r] have "g \<noteq> []" by auto
    then have "hd g \<in> set g" by simp
    with groupby_subset [OF g] have "hd g \<in> set ?r" by auto
    with s le show ?thesis by (rule dropWhile_key_greater)
  qed
  with ih show ?case by auto
qed

lemma groupby_keys_set: "set (map (\<lambda>g. f (hd g)) (groupby f xs)) = f ` set xs"
proof (rule set_eqI, rule iffI)
  fix k assume "k \<in> set (map (\<lambda>g. f (hd g)) (groupby f xs))"
  then obtain g where g: "g \<in> set (groupby f xs)" and k: "k = f (hd g)" by auto
  from g groupby_nonempty [of f xs] have "g \<noteq> []" by auto
  then have "hd g \<in> set g" by simp
  with groupby_subset [OF g] k show "k \<in> f ` set xs" by auto
next
  fix k assume "k \<in> f ` set xs"
  then obtain x where x: "x \<in> set xs" and k: "k = f x" by auto
  from x have "x \<in> set (concat (groupby f xs))" by (simp add: concat_groupby)
  then obtain g where g: "g \<in> set (groupby f xs)" and xg: "x \<in> set g" by auto
  from groupby_key [OF g xg] k g show "k \<in> set (map (\<lambda>g. f (hd g)) (groupby f xs))" by auto
qed

text \<open>Grouping a list sorted by an integer key whose values are exactly 0..N.\<close>

lemma groupby_range:
  fixes f :: "'a \<Rightarrow> int"
  assumes s: "sorted (map f xs)" and r: "f ` set xs = {0..N}"
  shows "map (\<lambda>g. f (hd g)) (groupby f xs) = [0..N]"
proof (rule sorted_distinct_set_unique)
  from groupby_keys_sorted [OF s]
  show "sorted (map (\<lambda>g. f (hd g)) (groupby f xs))" "distinct (map (\<lambda>g. f (hd g)) (groupby f xs))"
    by (simp_all add: strict_sorted_iff)
  show "sorted [0..N]" "distinct [0..N]" by simp_all
  show "set (map (\<lambda>g. f (hd g)) (groupby f xs)) = set [0..N]"
    using groupby_keys_set [of f xs] r by simp
qed

lemma groupby_range_length:
  fixes f :: "'a \<Rightarrow> int"
  assumes s: "sorted (map f xs)" and r: "f ` set xs = {0..N}"
  shows "length (groupby f xs) = nat (N + 1)"
proof -
  have "length (groupby f xs) = length (map (\<lambda>g. f (hd g)) (groupby f xs))" by simp
  also have "\<dots> = nat (N + 1)" unfolding groupby_range [OF s r] by simp
  finally show ?thesis .
qed

lemma groupby_range_nth:
  fixes f :: "'a \<Rightarrow> int"
  assumes s: "sorted (map f xs)" and r: "f ` set xs = {0..N}" and p: "0 \<le> p" "p \<le> N"
  shows "set (groupby f xs ! nat p) = {x \<in> set xs. f x = p}" and "groupby f xs ! nat p \<noteq> []"
proof -
  let ?G = "groupby f xs"
  have len: "length ?G = nat (N + 1)" by (rule groupby_range_length [OF s r])
  have key: "f (hd (?G ! q)) = int q" if "q < length ?G" for q
  proof -
    have "f (hd (?G ! q)) = map (\<lambda>g. f (hd g)) ?G ! q" using that by simp
    also have "\<dots> = [0..N] ! q" unfolding groupby_range [OF s r] ..
    also have "\<dots> = int q" using that len by (simp add: nth_upto)
    finally show ?thesis .
  qed
  from p len have pl: "nat p < length ?G" by auto
  then have mem: "?G ! nat p \<in> set ?G" by simp
  show "?G ! nat p \<noteq> []"
  proof
    assume "?G ! nat p = []"
    with mem have "[] \<in> set ?G" by simp
    with groupby_nonempty [of f xs] show False by simp
  qed
  show "set (?G ! nat p) = {x \<in> set xs. f x = p}"
  proof (rule set_eqI, rule iffI)
    fix x assume x: "x \<in> set (?G ! nat p)"
    from groupby_key [OF mem x] key [OF pl] p have "f x = p" by simp
    moreover from groupby_subset [OF mem] x have "x \<in> set xs" by auto
    ultimately show "x \<in> {x \<in> set xs. f x = p}" by simp
  next
    fix x assume "x \<in> {x \<in> set xs. f x = p}"
    then have x: "x \<in> set xs" and fx: "f x = p" by auto
    from x have "x \<in> set (concat ?G)" by (simp add: concat_groupby)
    then obtain g where g: "g \<in> set ?G" and xg: "x \<in> set g" by auto
    from g obtain q where q: "q < length ?G" and gq: "g = ?G ! q" by (auto simp: in_set_conv_nth)
    from groupby_key [OF g xg] key [OF q] gq fx have "p = int q" by simp
    with gq xg show "x \<in> set (?G ! nat p)" by simp
  qed
qed

section \<open>The basis enumerator\<close>

lemma B_basis_list:
  "0 \<le> m \<Longrightarrow> 0 \<le> n \<Longrightarrow> B m n = groupby weight (sort_key weight (basis_list m n))"
  by (simp add: B_def basis_list_def Let_def)

lemma set_basis_list:
  assumes "0 \<le> m" "0 \<le> n"
  shows "set (basis_list m n) = basis_vectors m n"
proof (rule set_eqI, rule iffI)
  fix v assume "v \<in> set (basis_list m n)"
  then obtain j where j: "0 \<le> j" "j \<le> m" and v: "v \<in> set (IntegerVectors j n)"
    by (auto simp: basis_list_def)
  from v j assms have "v \<in> set (IntegerVectors_nat (nat j) (nat n))"
    by (simp add: IntegerVectors_def)
  with j show "v \<in> basis_vectors m n"
    by (auto simp: set_IntegerVectors_nat basis_vectors_def)
next
  fix v assume "v \<in> basis_vectors m n"
  then have l: "length v = nat n" and nn: "\<forall>x\<in>set v. 0 \<le> x" and s: "sum_list v \<le> m"
    by (auto simp: basis_vectors_def)
  from nn have s0: "0 \<le> sum_list v" by (simp add: sum_list_nonneg)
  with l nn have "v \<in> set (IntegerVectors_nat (nat (sum_list v)) (nat n))"
    by (simp add: set_IntegerVectors_nat)
  with s0 assms have "v \<in> set (IntegerVectors (sum_list v) n)" by (simp add: IntegerVectors_def)
  with s0 s show "v \<in> set (basis_list m n)" by (auto simp: basis_list_def)
qed

lemma distinct_basis_list: "distinct (basis_list m n)"
  unfolding basis_list_def
proof (rule distinct_concat_map)
  show "distinct [0..m]" by simp
next
  fix j show "distinct (IntegerVectors j n)"
    by (simp add: IntegerVectors_def distinct_IntegerVectors_nat)
next
  fix x y :: int assume "x \<in> set [0..m]" "y \<in> set [0..m]" "x \<noteq> y"
  then show "set (IntegerVectors x n) \<inter> set (IntegerVectors y n) = {}"
    by (auto simp: IntegerVectors_def set_IntegerVectors_nat)
qed

lemma length_basis_list:
  assumes "0 \<le> m" "0 \<le> n"
  shows "length (basis_list m n) = (nat m + nat n) choose (nat n)"
proof -
  have up: "[0..m] = map int [0..<Suc (nat m)]" using upto_0_int [of "nat m"] assms by simp
  have "length (basis_list m n) = sum_list (map (\<lambda>j. length (IntegerVectors j n)) [0..m])"
    by (simp add: basis_list_def length_concat comp_def)
  also have "\<dots> = sum_list (map (\<lambda>k. length (IntegerVectors_nat k (nat n))) [0..<Suc (nat m)])"
    unfolding up using assms by (simp add: comp_def IntegerVectors_def del: upt_Suc)
  also have "\<dots> = (\<Sum>k\<le>nat m. length (IntegerVectors_nat k (nat n)))"
    by (simp add: interv_sum_list_conv_sum_set_nat atLeast0AtMost atLeastLessThanSuc_atLeastAtMost del: upt_Suc)
  also have "\<dots> = (nat m + nat n) choose (nat n)" by (rule sum_length_IntegerVectors_nat)
  finally show ?thesis .
qed

lemma total_B:
  assumes "0 \<le> m" "0 \<le> n"
  shows "sum_list (map length (B m n)) = length (basis_list m n)"
proof -
  have "sum_list (map length (B m n)) = length (concat (B m n))" by (simp add: length_concat)
  also have "\<dots> = length (basis_list m n)"
    using assms by (simp add: B_basis_list concat_groupby)
  finally show ?thesis .
qed

lemma sum_list_nth_int: "sum_list (v::int list) = (\<Sum>i<length v. v ! i)"
  by (simp add: sum_list_sum_nth atLeast0LessThan)

lemma weight_nonneg: "\<forall>x\<in>set v. 0 \<le> x \<Longrightarrow> 0 \<le> weight v"
  unfolding weight_sum by (rule sum_nonneg) simp

lemma weight_le: 
  assumes "\<forall>x\<in>set v. 0 \<le> x"
  shows "weight v \<le> int (length v) * sum_list v"
proof -
  have "weight v \<le> (\<Sum>i<length v. v ! i * int (length v))"
    unfolding weight_sum
  proof (rule sum_mono)
    fix i assume "i \<in> {..<length v}"
    then have "0 \<le> v ! i" "int (Suc i) \<le> int (length v)" using assms by auto
    then show "v ! i * int (Suc i) \<le> v ! i * int (length v)" by (rule mult_left_mono [rotated])
  qed
  also have "\<dots> = int (length v) * sum_list v"
    by (simp add: sum_list_nth_int sum_distrib_left mult.commute)
  finally show ?thesis .
qed

lemma weight_bounds:
  assumes v: "v \<in> basis_vectors m n" and n: "0 \<le> n"
  shows "0 \<le> weight v" "weight v \<le> n * m"
proof -
  from v have l: "length v = nat n" and nn: "\<forall>x\<in>set v. 0 \<le> x" and s: "sum_list v \<le> m"
    by (auto simp: basis_vectors_def)
  show "0 \<le> weight v" using nn by (rule weight_nonneg)
  have "weight v \<le> n * sum_list v" using weight_le [OF nn] l n by simp
  also have "\<dots> \<le> n * m" using s n by (rule mult_left_mono)
  finally show "weight v \<le> n * m" .
qed

lemma weight_replicate_0: "weight (replicate k 0) = 0"
  by (simp add: weight_sum)

lemma weight_update:
  assumes "i < length v"
  shows "weight (v[i := x]) = weight v + (x - v ! i) * int (Suc i)"
proof -
  have fin: "finite {..<length v}" and mem: "i \<in> {..<length v}" using assms by auto
  have "weight (v[i := x]) = x * int (Suc i) + (\<Sum>k\<in>{..<length v} - {i}. v[i := x] ! k * int (Suc k))"
    unfolding weight_sum using sum.remove [OF fin mem, of "\<lambda>k. v[i := x] ! k * int (Suc k)"] assms
    by simp
  also have "(\<Sum>k\<in>{..<length v} - {i}. v[i := x] ! k * int (Suc k)) = (\<Sum>k\<in>{..<length v} - {i}. v ! k * int (Suc k))"
    by (rule sum.cong) auto
  also have "\<dots> = weight v - v ! i * int (Suc i)"
    unfolding weight_sum using sum.remove [OF fin mem, of "\<lambda>k. v ! k * int (Suc k)"] by simp
  finally show ?thesis by (simp add: algebra_simps)
qed

lemma sum_list_update_int:
  fixes v :: "int list"
  assumes "i < length v"
  shows "sum_list (v[i := x]) = sum_list v + (x - v ! i)"
proof -
  have fin: "finite {..<length v}" and mem: "i \<in> {..<length v}" using assms by auto
  have "sum_list (v[i := x]) = x + (\<Sum>k\<in>{..<length v} - {i}. v[i := x] ! k)"
    unfolding sum_list_nth_int using sum.remove [OF fin mem, of "\<lambda>k. v[i := x] ! k"] assms
    by simp
  also have "(\<Sum>k\<in>{..<length v} - {i}. v[i := x] ! k) = (\<Sum>k\<in>{..<length v} - {i}. v ! k)"
    by (rule sum.cong) auto
  also have "\<dots> = sum_list v - v ! i"
    unfolding sum_list_nth_int using sum.remove [OF fin mem, of "\<lambda>k. v ! k"] by simp
  finally show ?thesis by simp
qed

lemma sum_list_replicate_0: "sum_list (replicate k (0::int)) = 0"
  by (induction k) auto

lemma weight_attained:
  assumes n: "1 \<le> n" and m: "0 \<le> m" and p: "0 \<le> p" "p \<le> n * m"
  shows "\<exists>v\<in>basis_vectors m n. weight v = p"
proof -
  define k where "k = nat n"
  define a where "a = p div n"
  define r where "r = p mod n"
  from n have k: "0 < k" "int k = n" by (simp_all add: k_def)
  from n p have a0: "0 \<le> a" by (simp add: a_def pos_imp_zdiv_nonneg_iff)
  from n have r: "0 \<le> r" "r < n" by (simp_all add: r_def)
  have pa: "p = n * a + r" by (simp add: a_def r_def)
  define v0 where "v0 = (replicate k (0::int))[k - 1 := a]"
  have l0: "length v0 = k" by (simp add: v0_def)
  have w0: "weight v0 = a * n" using k by (simp add: v0_def weight_update weight_replicate_0)
  have s0: "sum_list v0 = a" using k by (simp add: v0_def sum_list_update_int sum_list_replicate_0)
  have nn0: "\<forall>x\<in>set v0. 0 \<le> x" using a0 unfolding v0_def by (auto dest!: set_update_subset_insert [THEN subsetD])
  show ?thesis
  proof (cases "r = 0")
    case True
    with pa p n have "a \<le> m" by simp
    with l0 s0 nn0 k have "v0 \<in> basis_vectors m n" by (simp add: basis_vectors_def)
    moreover from w0 pa True have "weight v0 = p" by (simp add: mult.commute)
    ultimately show ?thesis by blast
  next
    case False
    with r have r1: "1 \<le> r" by simp
    have am: "a < m"
    proof (rule ccontr)
      assume "\<not> a < m"
      then have "m \<le> a" by simp
      then have "n * m \<le> n * a" using n by (simp add: mult_left_mono)
      with pa p r1 show False by simp
    qed
    define i where "i = nat (r - 1)"
    from r r1 k have i: "i < k - 1" "int (Suc i) = r" by (auto simp: i_def)
    define v where "v = v0[i := 1]"
    from i have v0i: "v0 ! i = 0" by (simp add: v0_def)
    have "weight v = a * n + r" using i l0 v0i w0 by (simp add: v_def weight_update)
    then have wv: "weight v = p" using pa by (simp add: mult.commute)
    have "sum_list v = a + 1" using i l0 v0i s0 by (simp add: v_def sum_list_update_int)
    moreover have "\<forall>x\<in>set v. 0 \<le> x" using nn0 unfolding v_def
      by (auto dest!: set_update_subset_insert [THEN subsetD])
    moreover have "length v = k" by (simp add: v_def l0)
    ultimately have "v \<in> basis_vectors m n" using am k by (simp add: basis_vectors_def)
    with wv show ?thesis by blast
  qed
qed

lemma weight_image_basis:
  assumes n: "1 \<le> n" and m: "0 \<le> m"
  shows "weight ` basis_vectors m n = {0..n * m}"
proof (rule set_eqI, rule iffI)
  fix p assume "p \<in> weight ` basis_vectors m n"
  then obtain v where "v \<in> basis_vectors m n" "p = weight v" by auto
  with weight_bounds [of v m n] n show "p \<in> {0..n * m}" by simp
next
  fix p assume "p \<in> {0..n * m}"
  then have "0 \<le> p" "p \<le> n * m" by auto
  from weight_attained [OF n m this] show "p \<in> weight ` basis_vectors m n" by auto
qed

lemma B_grades:
  assumes n: "1 \<le> n" and m: "0 \<le> m"
  shows "length (B m n) = nat (n * m + 1)"
    and "\<And>p. 0 \<le> p \<Longrightarrow> p \<le> n * m \<Longrightarrow> set (B m n ! nat p) = {v \<in> basis_vectors m n. weight v = p}"
    and "\<And>p. 0 \<le> p \<Longrightarrow> p \<le> n * m \<Longrightarrow> B m n ! nat p \<noteq> []"
    and "\<And>p. 0 \<le> p \<Longrightarrow> p \<le> n * m \<Longrightarrow> distinct (B m n ! nat p)"
proof -
  let ?xs = "sort_key weight (basis_list m n)"
  from n have n0: "0 \<le> n" by simp
  have Bd: "B m n = groupby weight ?xs" using m n0 by (rule B_basis_list)
  have s: "sorted (map weight ?xs)" by simp
  have st: "set ?xs = basis_vectors m n" using set_basis_list [OF m n0] by simp
  have r: "weight ` set ?xs = {0..n * m}" unfolding st by (rule weight_image_basis [OF n m])
  show len: "length (B m n) = nat (n * m + 1)" unfolding Bd by (rule groupby_range_length [OF s r])
  show "set (B m n ! nat p) = {v \<in> basis_vectors m n. weight v = p}" if "0 \<le> p" "p \<le> n * m" for p
    unfolding Bd using groupby_range_nth(1) [OF s r that] st by simp
  show "B m n ! nat p \<noteq> []" if "0 \<le> p" "p \<le> n * m" for p
    unfolding Bd by (rule groupby_range_nth(2) [OF s r that])
  show "distinct (B m n ! nat p)" if "0 \<le> p" "p \<le> n * m" for p
  proof -
    have "distinct (concat (B m n))" unfolding Bd concat_groupby using distinct_basis_list by simp
    moreover from that len have "B m n ! nat p \<in> set (B m n)" by simp
    ultimately show ?thesis by (auto simp: distinct_concat_iff)
  qed
qed

text \<open>
  Claim C6.  For \<open>m, n \<ge> 0\<close> the total number of basis vectors over all grades of
  \<open>B(m,n)\<close> is the number of vectors of \<open>n\<close> non-negative integers with coordinate sum at
  most \<open>m\<close>, which is the binomial coefficient \<open>C(m+n, n)\<close>.
\<close>

theorem C6_total_count:
  assumes "0 \<le> m" "0 \<le> n"
  shows "sum_list (map length (B m n)) = card (basis_vectors m n)
       \<and> sum_list (map length (B m n)) = (nat m + nat n) choose (nat n)"
proof -
  have "card (basis_vectors m n) = length (basis_list m n)"
    using distinct_card [OF distinct_basis_list, of m n] set_basis_list [OF assms] by simp
  with total_B [OF assms] length_basis_list [OF assms] show ?thesis by simp
qed

theorem C6_total_count_witness:
  "(0::int) \<le> 2 \<and> (0::int) \<le> 3 \<and> sum_list (map length (B 2 3)) = card (basis_vectors 2 3)
       \<and> sum_list (map length (B 2 3)) = 10"
proof -
  have c: "(nat 2 + nat 3) choose (nat 3) = (10::nat)" by code_simp
  show ?thesis using C6_total_count [of 2 3] c by simp
qed

text \<open>
  Claim C10.  For \<open>m, n \<ge> 1\<close> the list \<open>B(m,n)\<close> has exactly \<open>m*n + 1\<close> grades, none of
  them empty, and its \<open>p\<close>-th element lists, without repetition, exactly the vectors of \<open>n\<close>
  non-negative integers with coordinate sum at most \<open>m\<close> and weight \<open>p\<close>: the position of
  a grade is its weight.
\<close>

theorem C10_grade_position_is_weight:
  assumes "1 \<le> m" "1 \<le> n"
  shows "length (B m n) = nat (m * n + 1) \<and> (\<forall>g \<in> set (B m n). g \<noteq> [])
       \<and> (\<forall>p. 0 \<le> p \<and> p \<le> m * n \<longrightarrow>
            set (B m n ! nat p) = {v \<in> basis_vectors m n. weight v = p} \<and> distinct (B m n ! nat p))"
proof -
  from assms have m: "0 \<le> m" and n0: "0 \<le> n" by simp_all
  have "B m n = groupby weight (sort_key weight (basis_list m n))" using m n0 by (rule B_basis_list)
  then have "\<forall>g \<in> set (B m n). g \<noteq> []"
    using groupby_nonempty [of weight "sort_key weight (basis_list m n)"] by auto
  with B_grades [OF assms(2) m] show ?thesis by (simp add: mult.commute)
qed

theorem C10_grade_position_is_weight_witness:
  "(1::int) \<le> 2 \<and> (1::int) \<le> 2 \<and> length (B 2 2) = 5 \<and> [] \<notin> set (B 2 2)
     \<and> set (B 2 2 ! 2) = {v \<in> basis_vectors 2 2. weight v = 2} \<and> distinct (B 2 2 ! 2)"
proof -
  note t = C10_grade_position_is_weight [of 2 2]
  from t have len: "length (B 2 2) = 5" by simp
  from t have "\<forall>g \<in> set (B 2 2). g \<noteq> []" by simp
  then have ne: "[] \<notin> set (B 2 2)" by blast
  from t have grade: "\<And>p. 0 \<le> p \<Longrightarrow> p \<le> 4 \<Longrightarrow>
      set (B 2 2 ! nat p) = {v \<in> basis_vectors 2 2. weight v = p} \<and> distinct (B 2 2 ! nat p)"
    by simp
  from grade [of 2] len ne show ?thesis by simp
qed

section \<open>Loops, pools and tables\<close>

lemma ebind_Inr [simp]: "ebind (Inr x) f = f x"
  by (simp add: ebind_def)

lemma ebind_Inl [simp]: "ebind (Inl e) f = Inl e"
  by (simp add: ebind_def)

lemma forM_append: "forM (xs @ ys) f s = ebind (forM xs f s) (forM ys f)"
  by (induction xs arbitrary: s) (auto split: sum.splits)

lemma forM_invariant_aux:
  assumes step: "\<And>pre x s. I pre s \<Longrightarrow> x \<in> set xs \<Longrightarrow> \<exists>s'. f x s = Inr s' \<and> I (pre @ [x]) s'"
  shows "set ys \<subseteq> set xs \<Longrightarrow> I pre s \<Longrightarrow> \<exists>s'. forM ys f s = Inr s' \<and> I (pre @ ys) s'"
proof (induction ys arbitrary: pre s)
  case Nil then show ?case by simp
next
  case (Cons y ys)
  from Cons.prems have "y \<in> set xs" by simp
  from step [OF Cons.prems(2) this] obtain s1 where s1: "f y s = Inr s1" "I (pre @ [y]) s1" by blast
  from Cons.prems have "set ys \<subseteq> set xs" by simp
  from Cons.IH [OF this s1(2)] obtain s' where "forM ys f s1 = Inr s'" "I ((pre @ [y]) @ ys) s'" by blast
  with s1 show ?case by simp
qed

lemma forM_invariant:
  assumes "I [] s"
    and "\<And>pre x s. I pre s \<Longrightarrow> x \<in> set xs \<Longrightarrow> \<exists>s'. f x s = Inr s' \<and> I (pre @ [x]) s'"
  shows "\<exists>s'. forM xs f s = Inr s' \<and> I xs s'"
  using forM_invariant_aux [of I xs f xs "[]" s] assms by simp

lemma index_of_first_pos: "z \<in> set Z \<Longrightarrow> index_of Z z = Inr (first_pos Z z)"
  by (induction Z) (auto simp: first_pos_def)

lemma first_pos_less: "z \<in> set Z \<Longrightarrow> first_pos Z z < length Z"
  unfolding first_pos_def by (induction Z) auto

lemma nth_first_pos: "z \<in> set Z \<Longrightarrow> Z ! first_pos Z z = z"
  unfolding first_pos_def by (induction Z) auto

lemma first_pos_least: "k < first_pos Z z \<Longrightarrow> Z ! k \<noteq> z"
  unfolding first_pos_def
  by (induction Z arbitrary: k) (auto simp: nth_Cons split: nat.splits if_splits)

lemma first_pos_append: "z \<in> set Z \<Longrightarrow> first_pos (Z @ Y) z = first_pos Z z"
  unfolding first_pos_def by (induction Z) auto

lemma first_pos_new: "z \<notin> set Z \<Longrightarrow> first_pos (Z @ [z]) z = length Z"
  unfolding first_pos_def by (induction Z) auto

lemma first_pos_pool_add: "z \<in> set Z \<Longrightarrow> first_pos (pool_add Z y) z = first_pos Z z"
  by (simp add: pool_add_def first_pos_append)

lemma set_pool_add [simp]: "set (pool_add Z z) = insert z (set Z)"
  by (auto simp: pool_add_def)

lemma distinct_pool_add: "distinct Z \<Longrightarrow> distinct (pool_add Z z)"
  by (simp add: pool_add_def)

lemma prefix_pool_add: "prefix Z (pool_add Z z)"
  by (simp add: pool_add_def)

lemma mat_get_ok: "i < length A \<Longrightarrow> j < length (A ! i) \<Longrightarrow> mat_get A i j = Inr (A ! i ! j)"
  by (simp add: mat_get_def)

lemma mat_set_ok: "i < length A \<Longrightarrow> j < length (A ! i) \<Longrightarrow> mat_set A i j v = Inr (mat_upd A i j v)"
  by (simp add: mat_set_def mat_upd_def)

lemma is_matrix_upd: "is_matrix r c A \<Longrightarrow> is_matrix r c (mat_upd A i j v)"
proof -
  assume a: "is_matrix r c A"
  have "length (mat_upd A i j v ! k) = c" if "k < r" for k
    using a that by (cases "k = i") (simp_all add: is_matrix_def mat_upd_def)
  with a show ?thesis by (simp add: is_matrix_def mat_upd_def)
qed

lemma mat_upd_nth:
  "is_matrix r c A \<Longrightarrow> i < r \<Longrightarrow> j < c \<Longrightarrow> i' < r \<Longrightarrow> j' < c \<Longrightarrow>
   mat_upd A i j v ! i' ! j' = (if i' = i \<and> j' = j then v else A ! i' ! j')"
  by (auto simp: is_matrix_def mat_upd_def nth_list_update)

lemma is_matrix_zero: "is_matrix r c (zero_matrix r c)"
  by (simp add: is_matrix_def zero_matrix_def)

lemma list_get_ok: "0 \<le> p \<Longrightarrow> nat p < length xs \<Longrightarrow> list_get xs p = Inr (xs ! nat p)"
  by (auto simp: list_get_def Let_def)

lemma list_set_ok: "0 \<le> p \<Longrightarrow> nat p < length xs \<Longrightarrow> list_set xs p v = Inr (xs[nat p := v])"
  by (auto simp: list_set_def Let_def)

lemma get_entry_ok:
  "p < length M \<Longrightarrow> is_matrix r c (M ! p) \<Longrightarrow> i < r \<Longrightarrow> j < c \<Longrightarrow>
   get_entry M (int p) i j = Inr (M ! p ! i ! j)"
  by (simp add: get_entry_def list_get_ok mat_get_ok is_matrix_def)

lemma set_entry_ok:
  "p < length M \<Longrightarrow> is_matrix r c (M ! p) \<Longrightarrow> i < r \<Longrightarrow> j < c \<Longrightarrow>
   set_entry M (int p) i j v = Inr (M[p := mat_upd (M ! p) i j v])"
  by (simp add: set_entry_def list_get_ok list_set_ok mat_set_ok is_matrix_def)

lemma vadd_ok: "length a = length b \<Longrightarrow> vadd a b = Inr (map2 (+) a b)"
  by (simp add: vadd_def)

lemma length_e1: "1 \<le> n \<Longrightarrow> length (1 # replicate (nat (n - 1)) (0::int)) = nat n"
  by auto

lemma pooled_commute: "pooled v w c n = pooled w v c n"
proof -
  have "map2 (+) v w = map2 (+) w v"
    by (induction v w rule: list_induct2') (auto simp: add.commute)
  then show ?thesis by (simp add: pooled_def)
qed

lemma Vgeom_body_explicit:
  assumes n: "1 \<le> n" and li: "length (l ! i) = nat n" and lj: "length (l ! j) = nat n"
    and p: "p < length M" and sq: "is_matrix d d (M ! p)" and i: "i < d" and j: "j < d"
  shows "Vgeom_body m n (1 # replicate (nat (n - 1)) 0) l (int p) i j (Z, M) =
    (let z = pooled (l ! i) (l ! j) (n * m - 2 * int p) n;
         Z' = pool_add Z z;
         k = int (first_pos Z' z)
     in Inr (Z', M[p := mat_upd (mat_upd (M ! p) i j k) j i k]))"
proof -
  let ?e = "1 # replicate (nat (n - 1)) (0::int)"
  let ?z = "pooled (l ! i) (l ! j) (n * m - 2 * int p) n"
  have a: "vadd (l ! i) (l ! j) = Inr (map2 (+) (l ! i) (l ! j))" using li lj by (simp add: vadd_ok)
  have b: "vadd (map2 (+) (l ! i) (l ! j)) (smul (n * m - 2 * int p) ?e) = Inr ?z"
    using li lj n by (simp add: vadd_def smul_def pooled_def)
  have store: "ebind (set_entry M (int p) i j k) (\<lambda>M.
            ebind (get_entry M (int p) i j) (\<lambda>x.
            ebind (set_entry M (int p) j i x) (\<lambda>M. Inr (Z', M))))
          = Inr (Z', M[p := mat_upd (mat_upd (M ! p) i j k) j i k])" for k Z'
  proof -
    let ?M1 = "M[p := mat_upd (M ! p) i j k]"
    have s1: "set_entry M (int p) i j k = Inr ?M1" using p sq i j by (rule set_entry_ok)
    have p1: "p < length ?M1" using p by simp
    have sq1: "is_matrix d d (?M1 ! p)" using p sq by (simp add: is_matrix_upd)
    have g1: "get_entry ?M1 (int p) i j = Inr (?M1 ! p ! i ! j)" using p1 sq1 i j by (rule get_entry_ok)
    have v1: "?M1 ! p ! i ! j = k" using p sq i j by (simp add: mat_upd_nth)
    have s2: "set_entry ?M1 (int p) j i k = Inr (?M1[p := mat_upd (?M1 ! p) j i k])"
      using p1 sq1 j i by (rule set_entry_ok)
    have "?M1[p := mat_upd (?M1 ! p) j i k] = M[p := mat_upd (mat_upd (M ! p) i j k) j i k]"
      using p by simp
    then show ?thesis by (simp only: s1 g1 v1 s2 ebind_Inr)
  qed
  show ?thesis
  proof (cases "?z \<in> set Z")
    case True
    then have Z': "pool_add Z ?z = Z" by (simp add: pool_add_def)
    show ?thesis
      unfolding Vgeom_body_def using True
      by (simp add: a b Z' Let_def index_of_first_pos store del: replicate.simps)
  next
    case False
    then have Z': "pool_add Z ?z = Z @ [?z]" by (simp add: pool_add_def)
    have k: "int (length (Z @ [?z])) - 1 = int (first_pos (Z @ [?z]) ?z)"
      using False by (simp add: first_pos_new)
    show ?thesis
      unfolding Vgeom_body_def using False
      by (simp only: a b Z' Let_def k store ebind_Inr prod.case if_False)
  qed
qed

lemma is_matrix_rows: "is_matrix r c A \<Longrightarrow> length A = r"
  by (simp add: is_matrix_def)

lemma is_matrix_cols: "is_matrix r c A \<Longrightarrow> i < r \<Longrightarrow> length (A ! i) = c"
  by (simp add: is_matrix_def)

lemma mat_upd_nth_same: "i < length A \<Longrightarrow> j < length (A ! i) \<Longrightarrow> mat_upd A i j v ! i ! j = v"
  by (simp add: mat_upd_def)

lemma mat_upd_nth_other: "\<not> (a = i \<and> b = j) \<Longrightarrow> mat_upd A i j v ! a ! b = A ! a ! b"
proof (cases "a = i")
  case False
  then show ?thesis by (simp add: mat_upd_def)
next
  case True
  assume "\<not> (a = i \<and> b = j)"
  with True have bj: "b \<noteq> j" by blast
  show ?thesis
  proof (cases "i < length A")
    case True
    with \<open>a = i\<close> bj show ?thesis by (simp add: mat_upd_def)
  next
    case False
    then show ?thesis by (simp add: mat_upd_def list_update_beyond)
  qed
qed

lemma mat_upd2_nth_ji:
  assumes "is_matrix d d A" "i < d" "j < d"
  shows "mat_upd (mat_upd A i j k) j i k ! j ! i = k"
proof -
  have 1: "is_matrix d d (mat_upd A i j k)" using assms(1) by (rule is_matrix_upd)
  show ?thesis
    by (rule mat_upd_nth_same)
       (use assms in \<open>simp_all add: is_matrix_rows [OF 1] is_matrix_cols [OF 1]\<close>)
qed

lemma mat_upd2_nth_ij:
  assumes "is_matrix d d A" "i < d" "j < d"
  shows "mat_upd (mat_upd A i j k) j i k ! i ! j = k"
proof (cases "i = j")
  case True
  from mat_upd2_nth_ji [OF assms, of k] True show ?thesis by simp
next
  case False
  then have "\<not> (i = j \<and> j = i)" by blast
  then have "mat_upd (mat_upd A i j k) j i k ! i ! j = mat_upd A i j k ! i ! j"
    by (rule mat_upd_nth_other)
  also have "\<dots> = k"
    by (rule mat_upd_nth_same)
       (use assms in \<open>simp_all add: is_matrix_rows [OF assms(1)] is_matrix_cols [OF assms(1)]\<close>)
  finally show ?thesis .
qed

lemma mat_upd2_nth_other:
  assumes "\<not> (a = i \<and> b = j)" "\<not> (a = j \<and> b = i)"
  shows "mat_upd (mat_upd A i j k) j i k' ! a ! b = A ! a ! b"
proof -
  have "mat_upd (mat_upd A i j k) j i k' ! a ! b = mat_upd A i j k ! a ! b"
    using assms(2) by (rule mat_upd_nth_other)
  also have "\<dots> = A ! a ! b" using assms(1) by (rule mat_upd_nth_other)
  finally show ?thesis .
qed

lemma basis_grade_length:
  assumes "1 \<le> n" "0 \<le> m" "int p \<le> n * m" "i < length (B m n ! p)"
  shows "length (B m n ! p ! i) = nat n"
proof -
  have "B m n ! p ! i \<in> set (B m n ! nat (int p))" using assms(4) by simp
  also have "\<dots> = {v \<in> basis_vectors m n. weight v = int p}"
    using B_grades(2) [OF assms(1,2), of "int p"] assms(3) by simp
  finally show ?thesis by (simp add: basis_vectors_def)
qed

lemma half_le: "0 \<le> (k::int) \<Longrightarrow> k div 2 \<le> k"
  by simp

lemma Vgeom_step:
  assumes n: "1 \<le> n" and m: "0 \<le> m" and inv: "Vgeom_inv m n S s"
    and p: "int p \<le> (n * m) div 2" and i: "i < length (B m n ! p)" and j: "j < length (B m n ! p)"
  shows "\<exists>s'. Vgeom_body m n (1 # replicate (nat (n - 1)) 0) (B m n ! p) (int p) i j s = Inr s'
           \<and> Vgeom_inv m n (insert (p, i, j) S) s' \<and> prefix (fst s) (fst s')"
proof -
  obtain Z M where s: "s = (Z, M)" by (cases s)
  let ?l = "B m n ! p" and ?d = "length (B m n ! p)"
  let ?z = "pooled (?l ! i) (?l ! j) (n * m - 2 * int p) n"
  let ?Z' = "pool_add Z ?z"
  let ?k = "int (first_pos ?Z' ?z)"
  let ?M' = "M[p := mat_upd (mat_upd (M ! p) i j ?k) j i ?k]"
  from n m have nm: "0 \<le> n * m" by simp
  with p have pnm: "int p \<le> n * m" using half_le [OF nm] by linarith
  from inv s have dZ: "distinct Z" and lM: "length M = nat ((n * m) div 2 + 1)"
    and shape: "\<And>q. q < length M \<Longrightarrow> is_matrix (length (B m n ! q)) (length (B m n ! q)) (M ! q)"
    and ent: "\<And>q a b. (q, a, b) \<in> S \<Longrightarrow>
         pooled (B m n ! q ! a) (B m n ! q ! b) (n * m - 2 * int q) n \<in> set Z \<and>
         M ! q ! a ! b = int (first_pos Z (pooled (B m n ! q ! a) (B m n ! q ! b) (n * m - 2 * int q) n)) \<and>
         M ! q ! b ! a = M ! q ! a ! b"
    by (auto simp: Vgeom_inv_def)
  from p lM have pM: "p < length M" by linarith
  have sq: "is_matrix ?d ?d (M ! p)" using pM by (rule shape)
  have li: "length (?l ! i) = nat n" using n m pnm i by (rule basis_grade_length)
  have lj: "length (?l ! j) = nat n" using n m pnm j by (rule basis_grade_length)
  have body: "Vgeom_body m n (1 # replicate (nat (n - 1)) 0) ?l (int p) i j s = Inr (?Z', ?M')"
    unfolding s using Vgeom_body_explicit [OF n li lj pM sq i j, of m Z] by (simp add: Let_def)
  have Mp: "?M' ! p = mat_upd (mat_upd (M ! p) i j ?k) j i ?k" using pM by simp
  have rd_ij: "?M' ! p ! i ! j = ?k" unfolding Mp using sq i j by (rule mat_upd2_nth_ij)
  have rd_ji: "?M' ! p ! j ! i = ?k" unfolding Mp using sq i j by (rule mat_upd2_nth_ji)
  have rd_other: "?M' ! q ! a ! b = M ! q ! a ! b"
    if "\<not> (q = p \<and> a = i \<and> b = j)" "\<not> (q = p \<and> a = j \<and> b = i)" for q a b
  proof (cases "q = p")
    case True
    with that have "\<not> (a = i \<and> b = j)" "\<not> (a = j \<and> b = i)" by blast+
    then have "mat_upd (mat_upd (M ! p) i j ?k) j i ?k ! a ! b = M ! p ! a ! b"
      by (rule mat_upd2_nth_other)
    then show ?thesis unfolding True Mp .
  next
    case False then show ?thesis by simp
  qed
  have zmem: "?z \<in> set ?Z'" by simp
  have inv': "Vgeom_inv m n (insert (p, i, j) S) (?Z', ?M')"
    unfolding Vgeom_inv_def prod.case
  proof (intro conjI allI impI ballI)
    show "distinct ?Z'" using dZ by (rule distinct_pool_add)
    show "length ?M' = nat ((n * m) div 2 + 1)" using lM by simp
  next
    fix q assume "q < length ?M'"
    then have q: "q < length M" by simp
    show "is_matrix (length (B m n ! q)) (length (B m n ! q)) (?M' ! q)"
    proof (cases "q = p")
      case True
      with pM sq show ?thesis by (simp add: is_matrix_upd)
    next
      case False
      with shape [OF q] show ?thesis by simp
    qed
  next
    fix t assume t: "t \<in> insert (p, i, j) S"
    obtain q a b where tq: "t = (q, a, b)" by (cases t)
    let ?w = "pooled (B m n ! q ! a) (B m n ! q ! b) (n * m - 2 * int q) n"
    consider (new) "q = p" "a = i" "b = j" | (sym) "q = p" "a = j" "b = i"
      | (old) "(q, a, b) \<in> S" "\<not> (q = p \<and> a = i \<and> b = j)" "\<not> (q = p \<and> a = j \<and> b = i)"
      using t tq by blast
    then have "?w \<in> set ?Z' \<and> ?M' ! q ! a ! b = int (first_pos ?Z' ?w) \<and> ?M' ! q ! b ! a = ?M' ! q ! a ! b"
    proof cases
      case new
      show ?thesis unfolding new using zmem rd_ij rd_ji by (simp only: simp_thms)
    next
      case sym
      have "pooled (?l ! j) (?l ! i) (n * m - 2 * int p) n = ?z" by (rule pooled_commute)
      then show ?thesis unfolding sym using zmem rd_ij rd_ji by (simp only: simp_thms)
    next
      case old
      from old(2,3) have "\<not> (q = p \<and> b = j \<and> a = i)" "\<not> (q = p \<and> b = i \<and> a = j)" by blast+
      then have r2: "?M' ! q ! b ! a = M ! q ! b ! a" by (intro rd_other) blast+
      have r1: "?M' ! q ! a ! b = M ! q ! a ! b" using old(2,3) by (rule rd_other)
      from ent [OF old(1)] have e: "?w \<in> set Z" "M ! q ! a ! b = int (first_pos Z ?w)"
        "M ! q ! b ! a = M ! q ! a ! b" by blast+
      have fp: "first_pos ?Z' ?w = first_pos Z ?w" using e(1) by (rule first_pos_pool_add)
      have "?w \<in> set ?Z'" using e(1) by simp
      then show ?thesis unfolding r1 r2 fp using e(2,3) by blast
    qed
    then show "case t of (q, a, b) \<Rightarrow>
        pooled (B m n ! q ! a) (B m n ! q ! b) (n * m - 2 * int q) n \<in> set ?Z' \<and>
        ?M' ! q ! a ! b = int (first_pos ?Z' (pooled (B m n ! q ! a) (B m n ! q ! b) (n * m - 2 * int q) n)) \<and>
        ?M' ! q ! b ! a = ?M' ! q ! a ! b"
      unfolding tq prod.case .
  qed
  from body inv' show ?thesis using s by (auto simp: prefix_pool_add)
qed

lemma Vgeom_row:
  assumes n: "1 \<le> n" and m: "0 \<le> m" and inv: "Vgeom_inv m n S s"
    and p: "int p \<le> (n * m) div 2" and i: "i < length (B m n ! p)"
  shows "\<exists>s'. forM [i..<length (B m n ! p)]
                 (\<lambda>j. Vgeom_body m n (1 # replicate (nat (n - 1)) 0) (B m n ! p) (int p) i j) s = Inr s'
           \<and> Vgeom_inv m n (S \<union> {(p, i, j) | j. i \<le> j \<and> j < length (B m n ! p)}) s'
           \<and> prefix (fst s) (fst s')"
proof -
  let ?d = "length (B m n ! p)"
  let ?I = "\<lambda>pre s'. Vgeom_inv m n (S \<union> (\<lambda>j. (p, i, j)) ` set pre) s' \<and> prefix (fst s) (fst s')"
  have "\<exists>s'. forM [i..<?d] (\<lambda>j. Vgeom_body m n (1 # replicate (nat (n - 1)) 0) (B m n ! p) (int p) i j) s = Inr s'
          \<and> ?I [i..<?d] s'"
  proof (rule forM_invariant [where I = ?I])
    show "?I [] s" using inv by simp
  next
    fix pre x s1 assume I: "?I pre s1" and x: "x \<in> set [i..<?d]"
    from x have xd: "x < ?d" by simp
    from I have inv1: "Vgeom_inv m n (S \<union> (\<lambda>j. (p, i, j)) ` set pre) s1" and pr: "prefix (fst s) (fst s1)"
      by blast+
    from Vgeom_step [OF n m inv1 p i xd] obtain s2 where
      b: "Vgeom_body m n (1 # replicate (nat (n - 1)) 0) (B m n ! p) (int p) i x s1 = Inr s2"
      and inv2: "Vgeom_inv m n (insert (p, i, x) (S \<union> (\<lambda>j. (p, i, j)) ` set pre)) s2"
      and pr2: "prefix (fst s1) (fst s2)" by blast
    have eq: "insert (p, i, x) (S \<union> (\<lambda>j. (p, i, j)) ` set pre) = S \<union> (\<lambda>j. (p, i, j)) ` set (pre @ [x])"
      by auto
    from inv2 have "Vgeom_inv m n (S \<union> (\<lambda>j. (p, i, j)) ` set (pre @ [x])) s2" unfolding eq .
    moreover from pr pr2 have "prefix (fst s) (fst s2)" by (rule prefix_order.trans)
    ultimately show "\<exists>s'. Vgeom_body m n (1 # replicate (nat (n - 1)) 0) (B m n ! p) (int p) i x s1 = Inr s' \<and> ?I (pre @ [x]) s'"
      using b by blast
  qed
  then obtain s' where r: "forM [i..<?d] (\<lambda>j. Vgeom_body m n (1 # replicate (nat (n - 1)) 0) (B m n ! p) (int p) i j) s = Inr s'"
    and I: "?I [i..<?d] s'" by blast
  have eq: "(\<lambda>j. (p, i, j)) ` set [i..<?d] = {(p, i, j) | j. i \<le> j \<and> j < ?d}" by auto
  from I have "Vgeom_inv m n (S \<union> {(p, i, j) | j. i \<le> j \<and> j < ?d}) s'" "prefix (fst s) (fst s')"
    unfolding eq by blast+
  with r show ?thesis by blast
qed

lemma Vgeom_rows:
  assumes n: "1 \<le> n" and m: "0 \<le> m" and inv: "Vgeom_inv m n S s"
    and p: "int p \<le> (n * m) div 2"
  shows "\<exists>s'. forM [0..<length (B m n ! p)] (\<lambda>i. forM [i..<length (B m n ! p)]
                 (\<lambda>j. Vgeom_body m n (1 # replicate (nat (n - 1)) 0) (B m n ! p) (int p) i j)) s = Inr s'
           \<and> Vgeom_inv m n (S \<union> {(p, i, j) | i j. i \<le> j \<and> j < length (B m n ! p)}) s'
           \<and> prefix (fst s) (fst s')"
proof -
  let ?d = "length (B m n ! p)"
  let ?row = "\<lambda>i. forM [i..<?d] (\<lambda>j. Vgeom_body m n (1 # replicate (nat (n - 1)) 0) (B m n ! p) (int p) i j)"
  let ?T = "\<lambda>pre. {(p, i, j) | i j. i \<in> set pre \<and> i \<le> j \<and> j < ?d}"
  let ?I = "\<lambda>pre s'. Vgeom_inv m n (S \<union> ?T pre) s' \<and> prefix (fst s) (fst s')"
  have "\<exists>s'. forM [0..<?d] ?row s = Inr s' \<and> ?I [0..<?d] s'"
  proof (rule forM_invariant [where I = ?I])
    show "?I [] s" using inv by simp
  next
    fix pre x s1 assume I: "?I pre s1" and x: "x \<in> set [0..<?d]"
    from x have xd: "x < ?d" by simp
    from I have inv1: "Vgeom_inv m n (S \<union> ?T pre) s1" and pr: "prefix (fst s) (fst s1)" by blast+
    from Vgeom_row [OF n m inv1 p xd] obtain s2 where
      b: "?row x s1 = Inr s2"
      and inv2: "Vgeom_inv m n ((S \<union> ?T pre) \<union> {(p, x, j) | j. x \<le> j \<and> j < ?d}) s2"
      and pr2: "prefix (fst s1) (fst s2)" by blast
    have eq: "(S \<union> ?T pre) \<union> {(p, x, j) | j. x \<le> j \<and> j < ?d} = S \<union> ?T (pre @ [x])" by auto
    from inv2 have "Vgeom_inv m n (S \<union> ?T (pre @ [x])) s2" unfolding eq .
    moreover from pr pr2 have "prefix (fst s) (fst s2)" by (rule prefix_order.trans)
    ultimately show "\<exists>s'. ?row x s1 = Inr s' \<and> ?I (pre @ [x]) s'" using b by blast
  qed
  then obtain s' where r: "forM [0..<?d] ?row s = Inr s'" and I: "?I [0..<?d] s'" by blast
  have eq: "?T [0..<?d] = {(p, i, j) | i j. i \<le> j \<and> j < ?d}" by auto
  from I have "Vgeom_inv m n (S \<union> {(p, i, j) | i j. i \<le> j \<and> j < ?d}) s'" "prefix (fst s) (fst s')"
    unfolding eq by blast+
  with r show ?thesis by blast
qed

lemma Vgeom_grade_inv:
  assumes n: "1 \<le> n" and m: "0 \<le> m" and inv: "Vgeom_inv m n S s"
    and p: "int p \<le> (n * m) div 2"
  shows "\<exists>s'. Vgeom_grade m n (1 # replicate (nat (n - 1)) 0) (B m n) (int p) s = Inr s'
           \<and> Vgeom_inv m n (S \<union> {(p, i, j) | i j. i \<le> j \<and> j < length (B m n ! p)}) s'
           \<and> prefix (fst s) (fst s')"
proof -
  from n m have nm: "0 \<le> n * m" by simp
  with p have "int p \<le> n * m" using half_le [OF nm] by linarith
  then have "p < length (B m n)" using B_grades(1) [OF n m] by linarith
  then have "list_get (B m n) (int p) = Inr (B m n ! p)" by (simp add: list_get_ok)
  then show ?thesis unfolding Vgeom_grade_def using Vgeom_rows [OF n m inv p] by simp
qed

lemma Vgeom_returns:
  assumes n: "1 \<le> n" and m: "0 \<le> m"
  shows "\<exists>Z M. Vgeom m n = Inr (Tuple (Z, M)) \<and> Vgeom_inv m n (Vgeom_done m n) (Z, M)"
proof -
  let ?K = "(n * m) div 2"
  let ?e = "1 # replicate (nat (n - 1)) (0::int)"
  let ?M0 = "map (\<lambda>x. zero_matrix (length x) (length x) :: int mat) (take (nat (?K + 1)) (B m n))"
  let ?T = "\<lambda>pre. {(nat q, i, j) | q i j. q \<in> set pre \<and> i \<le> j \<and> j < length (B m n ! nat q)}"
  from n m have nm: "0 \<le> n * m" by simp
  then have K0: "0 \<le> ?K" by simp
  have KL: "nat (?K + 1) \<le> length (B m n)"
    using B_grades(1) [OF n m] half_le [OF nm] by linarith
  have inv0: "Vgeom_inv m n {} ([], ?M0)"
    unfolding Vgeom_inv_def using KL by (simp add: is_matrix_zero min_absorb2)
  have "\<exists>s'. forM [0..?K] (Vgeom_grade m n ?e (B m n)) ([], ?M0) = Inr s' \<and> Vgeom_inv m n (?T [0..?K]) s'"
  proof (rule forM_invariant [where I = "\<lambda>pre. Vgeom_inv m n (?T pre)"])
    have "?T [] = {}" by simp
    then show "Vgeom_inv m n (?T []) ([], ?M0)" using inv0 by (simp only:)
  next
    fix pre x s1 assume I: "Vgeom_inv m n (?T pre) s1" and x: "x \<in> set [0..?K]"
    from x have x0: "0 \<le> x" and xK: "int (nat x) \<le> ?K" by auto
    from Vgeom_grade_inv [OF n m I xK] x0 obtain s2 where
      b: "Vgeom_grade m n ?e (B m n) x s1 = Inr s2"
      and inv2: "Vgeom_inv m n (?T pre \<union> {(nat x, i, j) | i j. i \<le> j \<and> j < length (B m n ! nat x)}) s2"
      by auto
    have eq: "?T pre \<union> {(nat x, i, j) | i j. i \<le> j \<and> j < length (B m n ! nat x)} = ?T (pre @ [x])"
      by auto
    from inv2 have "Vgeom_inv m n (?T (pre @ [x])) s2" unfolding eq .
    with b show "\<exists>s'. Vgeom_grade m n ?e (B m n) x s1 = Inr s' \<and> Vgeom_inv m n (?T (pre @ [x])) s'"
      by blast
  qed
  then obtain s' where run: "forM [0..?K] (Vgeom_grade m n ?e (B m n)) ([], ?M0) = Inr s'"
    and inv: "Vgeom_inv m n (?T [0..?K]) s'" by blast
  have "?T [0..?K] = Vgeom_done m n"
  proof (rule set_eqI, rule iffI)
    fix t assume "t \<in> ?T [0..?K]"
    then show "t \<in> Vgeom_done m n" by (auto simp: Vgeom_done_def)
  next
    fix t assume "t \<in> Vgeom_done m n"
    then obtain p i j where t: "t = (p, i, j)" and c: "int p \<le> ?K" "i \<le> j" "j < length (B m n ! p)"
      by (auto simp: Vgeom_done_def)
    have "(nat (int p), i, j) \<in> ?T [0..?K]" using c by (intro CollectI exI [of _ "int p"]) auto
    with t show "t \<in> ?T [0..?K]" by simp
  qed
  then have eq: "?T [0..?K] = Vgeom_done m n" .
  from inv have inv': "Vgeom_inv m n (Vgeom_done m n) s'" unfolding eq .
  obtain Z M where s': "s' = (Z, M)" by (cases s')
  have "Vgeom m n = Inr (Tuple (Z, M))"
    using n m run s' by (simp add: Vgeom_def Let_def)
  with inv' s' show ?thesis by blast
qed

lemma get_entry0_ok:
  "p < length M \<Longrightarrow> is_matrix r c (fst (M ! p)) \<Longrightarrow> i < r \<Longrightarrow> j < c \<Longrightarrow>
   get_entry0 M (int p) i j = Inr (fst (M ! p) ! i ! j)"
  by (simp add: get_entry0_def list_get_ok mat_get_ok is_matrix_def)

lemma set_entry0_ok:
  "p < length M \<Longrightarrow> is_matrix r c (fst (M ! p)) \<Longrightarrow> i < r \<Longrightarrow> j < c \<Longrightarrow>
   set_entry0 M (int p) i j v = Inr (M[p := (mat_upd (fst (M ! p)) i j v, snd (M ! p))])"
  by (simp add: set_entry0_def list_get_ok list_set_ok mat_set_ok is_matrix_def)

lemma set_entry1_ok:
  "p < length M \<Longrightarrow> is_matrix r c (snd (M ! p)) \<Longrightarrow> i < r \<Longrightarrow> j < c \<Longrightarrow>
   set_entry1 M (int p) i j v = Inr (M[p := (fst (M ! p), mat_upd (snd (M ! p)) i j v)])"
  by (simp add: set_entry1_def list_get_ok list_set_ok mat_set_ok is_matrix_def)

lemma Varith_self_explicit:
  assumes n: "1 \<le> n" and li: "length (l ! i) = nat n" and lj: "length (l ! j) = nat n"
    and p: "p < length M" and sq: "is_matrix d d (fst (M ! p))" and i: "i < d" and j: "j < d"
  shows "Varith_self m n (1 # replicate (nat (n - 1)) 0) l (int p) i j (Z0, Z1, M) =
    (let z = pooled (l ! i) (l ! j) (n * m + 1 - 2 * int p) n;
         Z0' = pool_add Z0 z;
         k = int (first_pos Z0' z)
     in Inr (Z0', Z1, M[p := (mat_upd (mat_upd (fst (M ! p)) i j k) j i k, snd (M ! p))]))"
proof -
  let ?e = "1 # replicate (nat (n - 1)) (0::int)"
  let ?z = "pooled (l ! i) (l ! j) (n * m + 1 - 2 * int p) n"
  have a: "vadd (l ! i) (l ! j) = Inr (map2 (+) (l ! i) (l ! j))" using li lj by (simp add: vadd_ok)
  have b: "vadd (map2 (+) (l ! i) (l ! j)) (smul (n * m + 1 - 2 * int p) ?e) = Inr ?z"
    using li lj n by (simp add: vadd_def smul_def pooled_def)
  have store: "ebind (set_entry0 M (int p) i j k) (\<lambda>M.
            ebind (get_entry0 M (int p) i j) (\<lambda>x.
            ebind (set_entry0 M (int p) j i x) (\<lambda>M. Inr (Z', Z1, M))))
          = Inr (Z', Z1, M[p := (mat_upd (mat_upd (fst (M ! p)) i j k) j i k, snd (M ! p))])" for k Z'
  proof -
    let ?M1 = "M[p := (mat_upd (fst (M ! p)) i j k, snd (M ! p))]"
    have s1: "set_entry0 M (int p) i j k = Inr ?M1" using p sq i j by (rule set_entry0_ok)
    have p1: "p < length ?M1" using p by simp
    have f1: "fst (?M1 ! p) = mat_upd (fst (M ! p)) i j k" "snd (?M1 ! p) = snd (M ! p)" using p by simp_all
    have sq1: "is_matrix d d (fst (?M1 ! p))" unfolding f1 using sq by (rule is_matrix_upd)
    have g1: "get_entry0 ?M1 (int p) i j = Inr (fst (?M1 ! p) ! i ! j)" using p1 sq1 i j by (rule get_entry0_ok)
    have v1: "fst (?M1 ! p) ! i ! j = k" unfolding f1
      by (rule mat_upd_nth_same) (use sq i j in \<open>simp_all add: is_matrix_rows [OF sq] is_matrix_cols [OF sq]\<close>)
    have s2: "set_entry0 ?M1 (int p) j i k = Inr (?M1[p := (mat_upd (fst (?M1 ! p)) j i k, snd (?M1 ! p))])"
      using p1 sq1 j i by (rule set_entry0_ok)
    have "?M1[p := (mat_upd (fst (?M1 ! p)) j i k, snd (?M1 ! p))]
        = M[p := (mat_upd (mat_upd (fst (M ! p)) i j k) j i k, snd (M ! p))]"
      unfolding f1 by simp
    then show ?thesis by (simp only: s1 g1 v1 s2 ebind_Inr)
  qed
  show ?thesis
  proof (cases "?z \<in> set Z0")
    case True
    then have Z': "pool_add Z0 ?z = Z0" by (simp add: pool_add_def)
    show ?thesis
      unfolding Varith_self_def using True
      by (simp add: a b Z' Let_def index_of_first_pos store del: replicate.simps)
  next
    case False
    then have Z': "pool_add Z0 ?z = Z0 @ [?z]" by (simp add: pool_add_def)
    have k: "int (length (Z0 @ [?z])) - 1 = int (first_pos (Z0 @ [?z]) ?z)"
      using False by (simp add: first_pos_new)
    show ?thesis
      unfolding Varith_self_def using False
      by (simp only: a b Z' Let_def k store ebind_Inr prod.case if_False)
  qed
qed

lemma Varith_cross_explicit:
  assumes n: "1 \<le> n" and li: "length (l ! i) = nat n" and lj: "length (l2 ! j) = nat n"
    and p: "p < length M" and sq: "is_matrix d d2 (snd (M ! p))" and i: "i < d" and j: "j < d2"
  shows "Varith_cross m n (1 # replicate (nat (n - 1)) 0) l l2 (int p) i j (Z0, Z1, M) =
    (let z = pooled (l ! i) (l2 ! j) (n * m + 1 - 2 * int p) n;
         Z1' = pool_add Z1 z;
         k = int (first_pos Z1' z)
     in Inr (Z0, Z1', M[p := (fst (M ! p), mat_upd (snd (M ! p)) i j k)]))"
proof -
  let ?e = "1 # replicate (nat (n - 1)) (0::int)"
  let ?z = "pooled (l ! i) (l2 ! j) (n * m + 1 - 2 * int p) n"
  have a: "vadd (l ! i) (l2 ! j) = Inr (map2 (+) (l ! i) (l2 ! j))" using li lj by (simp add: vadd_ok)
  have b: "vadd (map2 (+) (l ! i) (l2 ! j)) (smul (n * m + 1 - 2 * int p) ?e) = Inr ?z"
    using li lj n by (simp add: vadd_def smul_def pooled_def)
  have store: "set_entry1 M (int p) i j k = Inr (M[p := (fst (M ! p), mat_upd (snd (M ! p)) i j k)])" for k
    using p sq i j by (rule set_entry1_ok)
  show ?thesis
  proof (cases "?z \<in> set Z1")
    case True
    then have Z': "pool_add Z1 ?z = Z1" by (simp add: pool_add_def)
    show ?thesis
      unfolding Varith_cross_def using True
      by (simp add: a b Z' Let_def index_of_first_pos store del: replicate.simps)
  next
    case False
    then have Z': "pool_add Z1 ?z = Z1 @ [?z]" by (simp add: pool_add_def)
    have k: "int (length (Z1 @ [?z])) - 1 = int (first_pos (Z1 @ [?z]) ?z)"
      using False by (simp add: first_pos_new)
    show ?thesis
      unfolding Varith_cross_def using False
      by (simp only: a b Z' Let_def k store ebind_Inr prod.case if_False)
  qed
qed

lemma half_succ_le: "1 \<le> (k::int) \<Longrightarrow> (k + 1) div 2 \<le> k"
  by simp

lemma pool_add_nth_0:
  assumes "Z \<noteq> []"
  shows "pool_add Z z ! 0 = Z ! 0"
proof (cases "z \<in> set Z")
  case True then show ?thesis by (simp add: pool_add_def)
next
  case False
  from assms have "0 < length Z" by simp
  then have "(Z @ [z]) ! 0 = Z ! 0" by (simp only: nth_append if_True)
  with False show ?thesis by (simp add: pool_add_def)
qed

lemma pool_add_nonempty: "pool_add Z z \<noteq> []"
  by (auto simp: pool_add_def)

lemma Varith_self_step:
  assumes n: "1 \<le> n" and m: "1 \<le> m" and inv: "Varith_inv m n S0 S1 s"
    and p0: "0 < p" and p: "int p \<le> (n * m + 1) div 2"
    and i: "i < length (B m n ! p)" and j: "j < length (B m n ! p)"
  shows "\<exists>s'. Varith_self m n (1 # replicate (nat (n - 1)) 0) (B m n ! p) (int p) i j s = Inr s'
           \<and> Varith_inv m n (insert (p, i, j) S0) S1 s'
           \<and> prefix (fst s) (fst s') \<and> fst (snd s') = fst (snd s)"
proof -
  obtain Z0 Z1 M where s: "s = (Z0, Z1, M)" by (cases s)
  let ?l = "B m n ! p" and ?d = "length (B m n ! p)"
  let ?z = "pooled (?l ! i) (?l ! j) (n * m + 1 - 2 * int p) n"
  let ?Z' = "pool_add Z0 ?z"
  let ?k = "int (first_pos ?Z' ?z)"
  let ?A' = "mat_upd (mat_upd (fst (M ! p)) i j ?k) j i ?k"
  let ?M' = "M[p := (?A', snd (M ! p))]"
  from n m have nm: "1 \<le> n * m" by (simp add: mult_le_cancel_left1 order.trans [OF _ mult_left_mono [of 1 m n]])
  from m have m0: "0 \<le> m" by simp
  from p half_succ_le [OF nm] have pnm: "int p \<le> n * m" by linarith
  from inv s have dZ0: "distinct Z0" and dZ1: "distinct Z1" and lM: "length M = nat ((n * m + 1) div 2 + 1)"
    and M0: "M ! 0 = ([[0]], [])" and Zne: "Z0 \<noteq> []"
    and Z00: "Z0 ! 0 = smul (n * m + 1) (1 # replicate (nat (n - 1)) 0)"
    and shape: "\<And>q. 0 < q \<Longrightarrow> q < length M \<Longrightarrow>
        is_matrix (length (B m n ! q)) (length (B m n ! q)) (fst (M ! q)) \<and>
        is_matrix (length (B m n ! q)) (length (B m n ! (q - 1))) (snd (M ! q))"
    and ent0: "\<And>q a b. (q, a, b) \<in> S0 \<Longrightarrow>
         pooled (B m n ! q ! a) (B m n ! q ! b) (n * m + 1 - 2 * int q) n \<in> set Z0 \<and>
         fst (M ! q) ! a ! b = int (first_pos Z0 (pooled (B m n ! q ! a) (B m n ! q ! b) (n * m + 1 - 2 * int q) n)) \<and>
         fst (M ! q) ! b ! a = fst (M ! q) ! a ! b"
    and ent1: "\<And>q a b. (q, a, b) \<in> S1 \<Longrightarrow>
         pooled (B m n ! q ! a) (B m n ! (q - 1) ! b) (n * m + 1 - 2 * int q) n \<in> set Z1 \<and>
         snd (M ! q) ! a ! b = int (first_pos Z1 (pooled (B m n ! q ! a) (B m n ! (q - 1) ! b) (n * m + 1 - 2 * int q) n))"
    by (auto simp: Varith_inv_def)
  from p lM have pM: "p < length M" by linarith
  have sq: "is_matrix ?d ?d (fst (M ! p))" using shape [OF p0 pM] by blast
  have li: "length (?l ! i) = nat n" using n m0 pnm i by (rule basis_grade_length)
  have lj: "length (?l ! j) = nat n" using n m0 pnm j by (rule basis_grade_length)
  have body: "Varith_self m n (1 # replicate (nat (n - 1)) 0) ?l (int p) i j s = Inr (?Z', Z1, ?M')"
    unfolding s using Varith_self_explicit [OF n li lj pM sq i j, of m Z0 Z1] by (simp add: Let_def)
  have fstp: "fst (?M' ! p) = ?A'" using pM by simp
  have sndq: "snd (?M' ! q) = snd (M ! q)" for q using pM by (cases "q = p") simp_all
  have fstq: "fst (?M' ! q) = fst (M ! q)" if "q \<noteq> p" for q using that by simp
  have rd_ij: "fst (?M' ! p) ! i ! j = ?k" unfolding fstp using sq i j by (rule mat_upd2_nth_ij)
  have rd_ji: "fst (?M' ! p) ! j ! i = ?k" unfolding fstp using sq i j by (rule mat_upd2_nth_ji)
  have rd_other: "fst (?M' ! q) ! a ! b = fst (M ! q) ! a ! b"
    if "\<not> (q = p \<and> a = i \<and> b = j)" "\<not> (q = p \<and> a = j \<and> b = i)" for q a b
  proof (cases "q = p")
    case True
    with that have "\<not> (a = i \<and> b = j)" "\<not> (a = j \<and> b = i)" by blast+
    then have "?A' ! a ! b = fst (M ! p) ! a ! b" by (rule mat_upd2_nth_other)
    then show ?thesis unfolding True fstp .
  next
    case False show ?thesis unfolding fstq [OF False] ..
  qed
  have zmem: "?z \<in> set ?Z'" by simp
  have inv': "Varith_inv m n (insert (p, i, j) S0) S1 (?Z', Z1, ?M')"
    unfolding Varith_inv_def prod.case
  proof (intro conjI allI impI ballI)
    show "distinct ?Z'" using dZ0 by (rule distinct_pool_add)
    show "distinct Z1" by (rule dZ1)
    show "length ?M' = nat ((n * m + 1) div 2 + 1)" using lM by simp
    show "?M' ! 0 = ([[0]], [])" using M0 p0 by simp
    show "?Z' \<noteq> []" by (rule pool_add_nonempty)
    show "?Z' ! 0 = smul (n * m + 1) (1 # replicate (nat (n - 1)) 0)"
      unfolding pool_add_nth_0 [OF Zne] by (rule Z00)
  next
    fix q assume "0 < q \<and> q < length ?M'"
    then have q: "0 < q" "q < length M" by simp_all
    show "is_matrix (length (B m n ! q)) (length (B m n ! q)) (fst (?M' ! q))"
    proof (cases "q = p")
      case True
      show ?thesis unfolding True fstp by (intro is_matrix_upd sq)
    next
      case False
      show ?thesis unfolding fstq [OF False] using shape [OF q] by blast
    qed
    show "is_matrix (length (B m n ! q)) (length (B m n ! (q - 1))) (snd (?M' ! q))"
      unfolding sndq using shape [OF q] by blast
  next
    fix t assume t: "t \<in> insert (p, i, j) S0"
    obtain q a b where tq: "t = (q, a, b)" by (cases t)
    let ?w = "pooled (B m n ! q ! a) (B m n ! q ! b) (n * m + 1 - 2 * int q) n"
    consider (new) "q = p" "a = i" "b = j" | (sym) "q = p" "a = j" "b = i"
      | (old) "(q, a, b) \<in> S0" "\<not> (q = p \<and> a = i \<and> b = j)" "\<not> (q = p \<and> a = j \<and> b = i)"
      using t tq by blast
    then have "?w \<in> set ?Z' \<and> fst (?M' ! q) ! a ! b = int (first_pos ?Z' ?w)
        \<and> fst (?M' ! q) ! b ! a = fst (?M' ! q) ! a ! b"
    proof cases
      case new
      show ?thesis unfolding new using zmem rd_ij rd_ji by (simp only: simp_thms)
    next
      case sym
      have "pooled (?l ! j) (?l ! i) (n * m + 1 - 2 * int p) n = ?z" by (rule pooled_commute)
      then show ?thesis unfolding sym using zmem rd_ij rd_ji by (simp only: simp_thms)
    next
      case old
      from old(2,3) have "\<not> (q = p \<and> b = j \<and> a = i)" "\<not> (q = p \<and> b = i \<and> a = j)" by blast+
      then have r2: "fst (?M' ! q) ! b ! a = fst (M ! q) ! b ! a" by (intro rd_other) blast+
      have r1: "fst (?M' ! q) ! a ! b = fst (M ! q) ! a ! b" using old(2,3) by (rule rd_other)
      from ent0 [OF old(1)] have e: "?w \<in> set Z0" "fst (M ! q) ! a ! b = int (first_pos Z0 ?w)"
        "fst (M ! q) ! b ! a = fst (M ! q) ! a ! b" by blast+
      have fp: "first_pos ?Z' ?w = first_pos Z0 ?w" using e(1) by (rule first_pos_pool_add)
      have "?w \<in> set ?Z'" using e(1) by simp
      then show ?thesis unfolding r1 r2 fp using e(2,3) by blast
    qed
    then show "case t of (q, a, b) \<Rightarrow>
        pooled (B m n ! q ! a) (B m n ! q ! b) (n * m + 1 - 2 * int q) n \<in> set ?Z' \<and>
        fst (?M' ! q) ! a ! b = int (first_pos ?Z' (pooled (B m n ! q ! a) (B m n ! q ! b) (n * m + 1 - 2 * int q) n)) \<and>
        fst (?M' ! q) ! b ! a = fst (?M' ! q) ! a ! b"
      unfolding tq prod.case .
  next
    fix t assume t: "t \<in> S1"
    obtain q a b where tq: "t = (q, a, b)" by (cases t)
    from ent1 [OF t [unfolded tq]]
    show "case t of (q, a, b) \<Rightarrow>
        pooled (B m n ! q ! a) (B m n ! (q - 1) ! b) (n * m + 1 - 2 * int q) n \<in> set Z1 \<and>
        snd (?M' ! q) ! a ! b = int (first_pos Z1 (pooled (B m n ! q ! a) (B m n ! (q - 1) ! b) (n * m + 1 - 2 * int q) n))"
      unfolding tq prod.case sndq .
  qed
  from body inv' show ?thesis using s by (auto simp: prefix_pool_add)
qed

lemma Varith_cross_step:
  assumes n: "1 \<le> n" and m: "1 \<le> m" and inv: "Varith_inv m n S0 S1 s"
    and p0: "0 < p" and p: "int p \<le> (n * m + 1) div 2"
    and i: "i < length (B m n ! p)" and j: "j < length (B m n ! (p - 1))"
  shows "\<exists>s'. Varith_cross m n (1 # replicate (nat (n - 1)) 0) (B m n ! p) (B m n ! (p - 1)) (int p) i j s = Inr s'
           \<and> Varith_inv m n S0 (insert (p, i, j) S1) s'
           \<and> fst s' = fst s \<and> prefix (fst (snd s)) (fst (snd s'))"
proof -
  obtain Z0 Z1 M where s: "s = (Z0, Z1, M)" by (cases s)
  let ?l = "B m n ! p" and ?l2 = "B m n ! (p - 1)"
  let ?d = "length (B m n ! p)" and ?d2 = "length (B m n ! (p - 1))"
  let ?z = "pooled (?l ! i) (?l2 ! j) (n * m + 1 - 2 * int p) n"
  let ?Z' = "pool_add Z1 ?z"
  let ?k = "int (first_pos ?Z' ?z)"
  let ?B' = "mat_upd (snd (M ! p)) i j ?k"
  let ?M' = "M[p := (fst (M ! p), ?B')]"
  from n m have nm: "1 \<le> n * m" by (simp add: mult_le_cancel_left1 order.trans [OF _ mult_left_mono [of 1 m n]])
  from m have m0: "0 \<le> m" by simp
  from p half_succ_le [OF nm] have pnm: "int p \<le> n * m" by linarith
  then have pnm2: "int (p - 1) \<le> n * m" by linarith
  from inv s have dZ0: "distinct Z0" and dZ1: "distinct Z1" and lM: "length M = nat ((n * m + 1) div 2 + 1)"
    and M0: "M ! 0 = ([[0]], [])" and Zne: "Z0 \<noteq> []"
    and Z00: "Z0 ! 0 = smul (n * m + 1) (1 # replicate (nat (n - 1)) 0)"
    and shape: "\<And>q. 0 < q \<Longrightarrow> q < length M \<Longrightarrow>
        is_matrix (length (B m n ! q)) (length (B m n ! q)) (fst (M ! q)) \<and>
        is_matrix (length (B m n ! q)) (length (B m n ! (q - 1))) (snd (M ! q))"
    and ent0: "\<And>q a b. (q, a, b) \<in> S0 \<Longrightarrow>
         pooled (B m n ! q ! a) (B m n ! q ! b) (n * m + 1 - 2 * int q) n \<in> set Z0 \<and>
         fst (M ! q) ! a ! b = int (first_pos Z0 (pooled (B m n ! q ! a) (B m n ! q ! b) (n * m + 1 - 2 * int q) n)) \<and>
         fst (M ! q) ! b ! a = fst (M ! q) ! a ! b"
    and ent1: "\<And>q a b. (q, a, b) \<in> S1 \<Longrightarrow>
         pooled (B m n ! q ! a) (B m n ! (q - 1) ! b) (n * m + 1 - 2 * int q) n \<in> set Z1 \<and>
         snd (M ! q) ! a ! b = int (first_pos Z1 (pooled (B m n ! q ! a) (B m n ! (q - 1) ! b) (n * m + 1 - 2 * int q) n))"
    by (auto simp: Varith_inv_def)
  from p lM have pM: "p < length M" by linarith
  have sq: "is_matrix ?d ?d2 (snd (M ! p))" using shape [OF p0 pM] by blast
  have li: "length (?l ! i) = nat n" using n m0 pnm i by (rule basis_grade_length)
  have lj: "length (?l2 ! j) = nat n" using n m0 pnm2 j by (rule basis_grade_length)
  have body: "Varith_cross m n (1 # replicate (nat (n - 1)) 0) ?l ?l2 (int p) i j s = Inr (Z0, ?Z', ?M')"
    unfolding s using Varith_cross_explicit [OF n li lj pM sq i j, of m Z0 Z1] by (simp add: Let_def)
  have sndp: "snd (?M' ! p) = ?B'" using pM by simp
  have fstq: "fst (?M' ! q) = fst (M ! q)" for q using pM by (cases "q = p") simp_all
  have sndq: "snd (?M' ! q) = snd (M ! q)" if "q \<noteq> p" for q using that by simp
  have rd_ij: "snd (?M' ! p) ! i ! j = ?k" unfolding sndp
    by (rule mat_upd_nth_same) (use i j in \<open>simp_all add: is_matrix_rows [OF sq] is_matrix_cols [OF sq]\<close>)
  have rd_other: "snd (?M' ! q) ! a ! b = snd (M ! q) ! a ! b"
    if "\<not> (q = p \<and> a = i \<and> b = j)" for q a b
  proof (cases "q = p")
    case True
    with that have "\<not> (a = i \<and> b = j)" by blast
    then have "?B' ! a ! b = snd (M ! p) ! a ! b" by (rule mat_upd_nth_other)
    then show ?thesis unfolding True sndp .
  next
    case False show ?thesis unfolding sndq [OF False] ..
  qed
  have zmem: "?z \<in> set ?Z'" by simp
  have inv': "Varith_inv m n S0 (insert (p, i, j) S1) (Z0, ?Z', ?M')"
    unfolding Varith_inv_def prod.case
  proof (intro conjI allI impI ballI)
    show "distinct ?Z'" using dZ1 by (rule distinct_pool_add)
    show "distinct Z0" by (rule dZ0)
    show "length ?M' = nat ((n * m + 1) div 2 + 1)" using lM by simp
    show "?M' ! 0 = ([[0]], [])" using M0 p0 by simp
    show "Z0 \<noteq> []" by (rule Zne)
    show "Z0 ! 0 = smul (n * m + 1) (1 # replicate (nat (n - 1)) 0)" by (rule Z00)
  next
    fix q assume "0 < q \<and> q < length ?M'"
    then have q: "0 < q" "q < length M" by simp_all
    show "is_matrix (length (B m n ! q)) (length (B m n ! (q - 1))) (snd (?M' ! q))"
    proof (cases "q = p")
      case True
      show ?thesis unfolding True sndp by (intro is_matrix_upd sq)
    next
      case False
      show ?thesis unfolding sndq [OF False] using shape [OF q] by blast
    qed
    show "is_matrix (length (B m n ! q)) (length (B m n ! q)) (fst (?M' ! q))"
      unfolding fstq using shape [OF q] by blast
  next
    fix t assume t: "t \<in> insert (p, i, j) S1"
    obtain q a b where tq: "t = (q, a, b)" by (cases t)
    let ?w = "pooled (B m n ! q ! a) (B m n ! (q - 1) ! b) (n * m + 1 - 2 * int q) n"
    consider (new) "q = p" "a = i" "b = j"
      | (old) "(q, a, b) \<in> S1" "\<not> (q = p \<and> a = i \<and> b = j)"
      using t tq by blast
    then have "?w \<in> set ?Z' \<and> snd (?M' ! q) ! a ! b = int (first_pos ?Z' ?w)"
    proof cases
      case new
      show ?thesis unfolding new using zmem rd_ij by (simp only: simp_thms)
    next
      case old
      have r1: "snd (?M' ! q) ! a ! b = snd (M ! q) ! a ! b" using old(2) by (rule rd_other)
      from ent1 [OF old(1)] have e: "?w \<in> set Z1" "snd (M ! q) ! a ! b = int (first_pos Z1 ?w)"
        by blast+
      have fp: "first_pos ?Z' ?w = first_pos Z1 ?w" using e(1) by (rule first_pos_pool_add)
      have "?w \<in> set ?Z'" using e(1) by simp
      then show ?thesis unfolding r1 fp using e(2) by blast
    qed
    then show "case t of (q, a, b) \<Rightarrow>
        pooled (B m n ! q ! a) (B m n ! (q - 1) ! b) (n * m + 1 - 2 * int q) n \<in> set ?Z' \<and>
        snd (?M' ! q) ! a ! b = int (first_pos ?Z' (pooled (B m n ! q ! a) (B m n ! (q - 1) ! b) (n * m + 1 - 2 * int q) n))"
      unfolding tq prod.case .
  next
    fix t assume t: "t \<in> S0"
    obtain q a b where tq: "t = (q, a, b)" by (cases t)
    from ent0 [OF t [unfolded tq]]
    show "case t of (q, a, b) \<Rightarrow>
        pooled (B m n ! q ! a) (B m n ! q ! b) (n * m + 1 - 2 * int q) n \<in> set Z0 \<and>
        fst (?M' ! q) ! a ! b = int (first_pos Z0 (pooled (B m n ! q ! a) (B m n ! q ! b) (n * m + 1 - 2 * int q) n)) \<and>
        fst (?M' ! q) ! b ! a = fst (?M' ! q) ! a ! b"
      unfolding tq prod.case fstq .
  qed
  from body inv' show ?thesis using s by (auto simp: prefix_pool_add)
qed

lemma Varith_self_row:
  assumes n: "1 \<le> n" and m: "1 \<le> m" and inv: "Varith_inv m n S0 S1 s"
    and p0: "0 < p" and p: "int p \<le> (n * m + 1) div 2" and i: "i < length (B m n ! p)"
  shows "\<exists>s'. forM [i..<length (B m n ! p)]
                 (\<lambda>j. Varith_self m n (1 # replicate (nat (n - 1)) 0) (B m n ! p) (int p) i j) s = Inr s'
           \<and> Varith_inv m n (S0 \<union> {(p, i, j) | j. i \<le> j \<and> j < length (B m n ! p)}) S1 s'"
proof -
  let ?d = "length (B m n ! p)"
  let ?f = "\<lambda>j. Varith_self m n (1 # replicate (nat (n - 1)) 0) (B m n ! p) (int p) i j"
  let ?I = "\<lambda>pre s'. Varith_inv m n (S0 \<union> (\<lambda>j. (p, i, j)) ` set pre) S1 s'"
  have "\<exists>s'. forM [i..<?d] ?f s = Inr s' \<and> ?I [i..<?d] s'"
  proof (rule forM_invariant [where I = ?I])
    show "?I [] s" using inv by simp
  next
    fix pre x s1 assume inv1: "?I pre s1" and x: "x \<in> set [i..<?d]"
    from x have xd: "x < ?d" by simp
    from Varith_self_step [OF n m inv1 p0 p i xd] obtain s2 where
      b: "?f x s1 = Inr s2"
      and inv2: "Varith_inv m n (insert (p, i, x) (S0 \<union> (\<lambda>j. (p, i, j)) ` set pre)) S1 s2"
      by blast
    have eq: "insert (p, i, x) (S0 \<union> (\<lambda>j. (p, i, j)) ` set pre) = S0 \<union> (\<lambda>j. (p, i, j)) ` set (pre @ [x])"
      by auto
    from inv2 have "?I (pre @ [x]) s2" unfolding eq .
    with b show "\<exists>s'. ?f x s1 = Inr s' \<and> ?I (pre @ [x]) s'" by blast
  qed
  then obtain s' where r: "forM [i..<?d] ?f s = Inr s'" and I: "?I [i..<?d] s'" by blast
  have eq: "(\<lambda>j. (p, i, j)) ` set [i..<?d] = {(p, i, j) | j. i \<le> j \<and> j < ?d}" by auto
  from I have "Varith_inv m n (S0 \<union> {(p, i, j) | j. i \<le> j \<and> j < ?d}) S1 s'" unfolding eq .
  with r show ?thesis by blast
qed

lemma Varith_self_rows:
  assumes n: "1 \<le> n" and m: "1 \<le> m" and inv: "Varith_inv m n S0 S1 s"
    and p0: "0 < p" and p: "int p \<le> (n * m + 1) div 2"
  shows "\<exists>s'. forM [0..<length (B m n ! p)] (\<lambda>i. forM [i..<length (B m n ! p)]
                 (\<lambda>j. Varith_self m n (1 # replicate (nat (n - 1)) 0) (B m n ! p) (int p) i j)) s = Inr s'
           \<and> Varith_inv m n (S0 \<union> {(p, i, j) | i j. i \<le> j \<and> j < length (B m n ! p)}) S1 s'"
proof -
  let ?d = "length (B m n ! p)"
  let ?row = "\<lambda>i. forM [i..<?d] (\<lambda>j. Varith_self m n (1 # replicate (nat (n - 1)) 0) (B m n ! p) (int p) i j)"
  let ?T = "\<lambda>pre. {(p, i, j) | i j. i \<in> set pre \<and> i \<le> j \<and> j < ?d}"
  let ?I = "\<lambda>pre s'. Varith_inv m n (S0 \<union> ?T pre) S1 s'"
  have "\<exists>s'. forM [0..<?d] ?row s = Inr s' \<and> ?I [0..<?d] s'"
  proof (rule forM_invariant [where I = ?I])
    show "?I [] s" using inv by simp
  next
    fix pre x s1 assume inv1: "?I pre s1" and x: "x \<in> set [0..<?d]"
    from x have xd: "x < ?d" by simp
    from Varith_self_row [OF n m inv1 p0 p xd] obtain s2 where
      b: "?row x s1 = Inr s2"
      and inv2: "Varith_inv m n ((S0 \<union> ?T pre) \<union> {(p, x, j) | j. x \<le> j \<and> j < ?d}) S1 s2"
      by blast
    have eq: "(S0 \<union> ?T pre) \<union> {(p, x, j) | j. x \<le> j \<and> j < ?d} = S0 \<union> ?T (pre @ [x])" by auto
    from inv2 have "?I (pre @ [x]) s2" unfolding eq .
    with b show "\<exists>s'. ?row x s1 = Inr s' \<and> ?I (pre @ [x]) s'" by blast
  qed
  then obtain s' where r: "forM [0..<?d] ?row s = Inr s'" and I: "?I [0..<?d] s'" by blast
  have eq: "?T [0..<?d] = {(p, i, j) | i j. i \<le> j \<and> j < ?d}" by auto
  from I have "Varith_inv m n (S0 \<union> {(p, i, j) | i j. i \<le> j \<and> j < ?d}) S1 s'" unfolding eq .
  with r show ?thesis by blast
qed

lemma Varith_cross_row:
  assumes n: "1 \<le> n" and m: "1 \<le> m" and inv: "Varith_inv m n S0 S1 s"
    and p0: "0 < p" and p: "int p \<le> (n * m + 1) div 2" and i: "i < length (B m n ! p)"
  shows "\<exists>s'. forM [0..<length (B m n ! (p - 1))]
                 (\<lambda>j. Varith_cross m n (1 # replicate (nat (n - 1)) 0) (B m n ! p) (B m n ! (p - 1)) (int p) i j) s = Inr s'
           \<and> Varith_inv m n S0 (S1 \<union> {(p, i, j) | j. j < length (B m n ! (p - 1))}) s'"
proof -
  let ?d2 = "length (B m n ! (p - 1))"
  let ?f = "\<lambda>j. Varith_cross m n (1 # replicate (nat (n - 1)) 0) (B m n ! p) (B m n ! (p - 1)) (int p) i j"
  let ?I = "\<lambda>pre s'. Varith_inv m n S0 (S1 \<union> (\<lambda>j. (p, i, j)) ` set pre) s'"
  have "\<exists>s'. forM [0..<?d2] ?f s = Inr s' \<and> ?I [0..<?d2] s'"
  proof (rule forM_invariant [where I = ?I])
    show "?I [] s" using inv by simp
  next
    fix pre x s1 assume inv1: "?I pre s1" and x: "x \<in> set [0..<?d2]"
    from x have xd: "x < ?d2" by simp
    from Varith_cross_step [OF n m inv1 p0 p i xd] obtain s2 where
      b: "?f x s1 = Inr s2"
      and inv2: "Varith_inv m n S0 (insert (p, i, x) (S1 \<union> (\<lambda>j. (p, i, j)) ` set pre)) s2"
      by blast
    have eq: "insert (p, i, x) (S1 \<union> (\<lambda>j. (p, i, j)) ` set pre) = S1 \<union> (\<lambda>j. (p, i, j)) ` set (pre @ [x])"
      by auto
    from inv2 have "?I (pre @ [x]) s2" unfolding eq .
    with b show "\<exists>s'. ?f x s1 = Inr s' \<and> ?I (pre @ [x]) s'" by blast
  qed
  then obtain s' where r: "forM [0..<?d2] ?f s = Inr s'" and I: "?I [0..<?d2] s'" by blast
  have eq: "(\<lambda>j. (p, i, j)) ` set [0..<?d2] = {(p, i, j) | j. j < ?d2}" by auto
  from I have "Varith_inv m n S0 (S1 \<union> {(p, i, j) | j. j < ?d2}) s'" unfolding eq .
  with r show ?thesis by blast
qed

lemma Varith_cross_rows:
  assumes n: "1 \<le> n" and m: "1 \<le> m" and inv: "Varith_inv m n S0 S1 s"
    and p0: "0 < p" and p: "int p \<le> (n * m + 1) div 2"
  shows "\<exists>s'. forM [0..<length (B m n ! p)] (\<lambda>i. forM [0..<length (B m n ! (p - 1))]
                 (\<lambda>j. Varith_cross m n (1 # replicate (nat (n - 1)) 0) (B m n ! p) (B m n ! (p - 1)) (int p) i j)) s = Inr s'
           \<and> Varith_inv m n S0 (S1 \<union> {(p, i, j) | i j. i < length (B m n ! p) \<and> j < length (B m n ! (p - 1))}) s'"
proof -
  let ?d = "length (B m n ! p)" and ?d2 = "length (B m n ! (p - 1))"
  let ?row = "\<lambda>i. forM [0..<?d2] (\<lambda>j. Varith_cross m n (1 # replicate (nat (n - 1)) 0) (B m n ! p) (B m n ! (p - 1)) (int p) i j)"
  let ?T = "\<lambda>pre. {(p, i, j) | i j. i \<in> set pre \<and> j < ?d2}"
  let ?I = "\<lambda>pre s'. Varith_inv m n S0 (S1 \<union> ?T pre) s'"
  have "\<exists>s'. forM [0..<?d] ?row s = Inr s' \<and> ?I [0..<?d] s'"
  proof (rule forM_invariant [where I = ?I])
    show "?I [] s" using inv by simp
  next
    fix pre x s1 assume inv1: "?I pre s1" and x: "x \<in> set [0..<?d]"
    from x have xd: "x < ?d" by simp
    from Varith_cross_row [OF n m inv1 p0 p xd] obtain s2 where
      b: "?row x s1 = Inr s2"
      and inv2: "Varith_inv m n S0 ((S1 \<union> ?T pre) \<union> {(p, x, j) | j. j < ?d2}) s2"
      by blast
    have eq: "(S1 \<union> ?T pre) \<union> {(p, x, j) | j. j < ?d2} = S1 \<union> ?T (pre @ [x])" by auto
    from inv2 have "?I (pre @ [x]) s2" unfolding eq .
    with b show "\<exists>s'. ?row x s1 = Inr s' \<and> ?I (pre @ [x]) s'" by blast
  qed
  then obtain s' where r: "forM [0..<?d] ?row s = Inr s'" and I: "?I [0..<?d] s'" by blast
  have eq: "?T [0..<?d] = {(p, i, j) | i j. i < ?d \<and> j < ?d2}" by auto
  from I have "Varith_inv m n S0 (S1 \<union> {(p, i, j) | i j. i < ?d \<and> j < ?d2}) s'" unfolding eq .
  with r show ?thesis by blast
qed

lemma Varith_grade_inv:
  assumes n: "1 \<le> n" and m: "1 \<le> m" and inv: "Varith_inv m n S0 S1 s"
    and p0: "0 < p" and p: "int p \<le> (n * m + 1) div 2"
  shows "\<exists>s'. Varith_grade m n (1 # replicate (nat (n - 1)) 0) (B m n) (int p) s = Inr s'
           \<and> Varith_inv m n (S0 \<union> {(p, i, j) | i j. i \<le> j \<and> j < length (B m n ! p)})
                (S1 \<union> {(p, i, j) | i j. i < length (B m n ! p) \<and> j < length (B m n ! (p - 1))}) s'"
proof -
  from n m have nm: "1 \<le> n * m" by (simp add: mult_le_cancel_left1 order.trans [OF _ mult_left_mono [of 1 m n]])
  from m have m0: "0 \<le> m" by simp
  from p half_succ_le [OF nm] have "int p \<le> n * m" by linarith
  then have pl: "p < length (B m n)" using B_grades(1) [OF n m0] by linarith
  then have g1: "list_get (B m n) (int p) = Inr (B m n ! p)" by (simp add: list_get_ok)
  from pl p0 have g2: "list_get (B m n) (int p - 1) = Inr (B m n ! (p - 1))"
    by (simp add: list_get_ok nat_diff_distrib')
  from Varith_self_rows [OF n m inv p0 p] obtain s1 where
    r1: "forM [0..<length (B m n ! p)] (\<lambda>i. forM [i..<length (B m n ! p)]
                 (\<lambda>j. Varith_self m n (1 # replicate (nat (n - 1)) 0) (B m n ! p) (int p) i j)) s = Inr s1"
    and inv1: "Varith_inv m n (S0 \<union> {(p, i, j) | i j. i \<le> j \<and> j < length (B m n ! p)}) S1 s1"
    by blast
  from Varith_cross_rows [OF n m inv1 p0 p] obtain s2 where
    r2: "forM [0..<length (B m n ! p)] (\<lambda>i. forM [0..<length (B m n ! (p - 1))]
                 (\<lambda>j. Varith_cross m n (1 # replicate (nat (n - 1)) 0) (B m n ! p) (B m n ! (p - 1)) (int p) i j)) s1 = Inr s2"
    and inv2: "Varith_inv m n (S0 \<union> {(p, i, j) | i j. i \<le> j \<and> j < length (B m n ! p)})
                (S1 \<union> {(p, i, j) | i j. i < length (B m n ! p) \<and> j < length (B m n ! (p - 1))}) s2"
    by blast
  have "Varith_grade m n (1 # replicate (nat (n - 1)) 0) (B m n) (int p) s = Inr s2"
    unfolding Varith_grade_def by (simp only: g1 g2 r1 r2 ebind_Inr)
  with inv2 show ?thesis by blast
qed

lemma mapM_all_ok: "(\<And>x. x \<in> set xs \<Longrightarrow> f x = Inr (g x)) \<Longrightarrow> mapM f xs = Inr (map g xs)"
  by (induction xs) auto

lemma upto_1_nth: "k < nat K \<Longrightarrow> [1..K] ! k = int k + 1"
  by (simp add: nth_upto)

lemma Varith_returns_pos:
  assumes n: "1 \<le> n" and m: "1 \<le> m"
  shows "\<exists>Z0 Z1 M. Varith m n = Inr (Tuple (Z0, Z1, M))
           \<and> Varith_inv m n (Varith_done0 m n) (Varith_done1 m n) (Z0, Z1, M)"
proof -
  let ?K = "(n * m + 1) div 2"
  let ?e = "1 # replicate (nat (n - 1)) (0::int)"
  let ?L = "B m n"
  let ?g = "\<lambda>p. (zero_matrix (length (?L ! nat p)) (length (?L ! nat p)) :: int mat,
                  zero_matrix (length (?L ! nat p)) (length (?L ! nat (p - 1))) :: int mat)"
  let ?M0 = "([[0]], []) # map ?g [1..?K]"
  let ?s0 = "([smul (n * m + 1) ?e], [] :: vec list, ?M0)"
  let ?T0 = "\<lambda>pre. {(nat q, i, j) | q i j. q \<in> set pre \<and> i \<le> j \<and> j < length (?L ! nat q)}"
  let ?T1 = "\<lambda>pre. {(nat q, i, j) | q i j. q \<in> set pre \<and> i < length (?L ! nat q) \<and> j < length (?L ! (nat q - 1))}"
  from n m have nm: "1 \<le> n * m" by (simp add: mult_le_cancel_left1 order.trans [OF _ mult_left_mono [of 1 m n]])
  from m have m0: "0 \<le> m" by simp
  from nm have K0: "0 \<le> ?K" by simp
  have Knm: "?K \<le> n * m" using half_succ_le [OF nm] .
  have len: "length ?L = nat (n * m + 1)" using B_grades(1) [OF n m0] .
  have tab: "Varith_tables ?L p = Inr (?g p)" if "p \<in> set [1..?K]" for p
  proof -
    from that Knm have p: "1 \<le> p" "p \<le> n * m" by auto
    with len have "list_get ?L p = Inr (?L ! nat p)" "list_get ?L (p - 1) = Inr (?L ! nat (p - 1))"
      by (simp_all add: list_get_ok)
    then show ?thesis by (simp add: Varith_tables_def)
  qed
  have tabs: "mapM (Varith_tables ?L) [1..?K] = Inr (map ?g [1..?K])"
    using tab by (rule mapM_all_ok)
  have lenM0: "length ?M0 = nat (?K + 1)" using K0 by simp
  have M0p: "?M0 ! p = ?g (int p)" if "0 < p" "p < length ?M0" for p
  proof -
    from that obtain k where k: "p = Suc k" by (cases p) auto
    with that K0 have kK: "k < nat ?K" by simp
    then have "[1..?K] ! k = int k + 1" by (rule upto_1_nth)
    with k kK show ?thesis by simp
  qed
  have inv0: "Varith_inv m n {} {} ?s0"
    unfolding Varith_inv_def prod.case
  proof (intro conjI allI impI ballI)
    fix p assume p: "0 < p \<and> p < length ?M0"
    then have "?M0 ! p = ?g (int p)" using M0p by blast
    moreover from p have "nat (int p - 1) = p - 1" by simp
    ultimately show "is_matrix (length (?L ! p)) (length (?L ! p)) (fst (?M0 ! p))"
      and "is_matrix (length (?L ! p)) (length (?L ! (p - 1))) (snd (?M0 ! p))"
      by (simp_all add: is_matrix_zero)
  qed (use K0 in simp_all)
  have "\<exists>s'. forM [1..?K] (Varith_grade m n ?e ?L) ?s0 = Inr s' \<and> Varith_inv m n (?T0 [1..?K]) (?T1 [1..?K]) s'"
  proof (rule forM_invariant [where I = "\<lambda>pre. Varith_inv m n (?T0 pre) (?T1 pre)"])
    have "?T0 [] = {}" "?T1 [] = {}" by simp_all
    then show "Varith_inv m n (?T0 []) (?T1 []) ?s0" using inv0 by (simp only:)
  next
    fix pre x s1 assume I: "Varith_inv m n (?T0 pre) (?T1 pre) s1" and x: "x \<in> set [1..?K]"
    from x have x0: "0 < nat x" and xK: "int (nat x) \<le> ?K" and xx: "int (nat x) = x" by auto
    from Varith_grade_inv [OF n m I x0 xK] obtain s2 where
      b: "Varith_grade m n ?e ?L x s1 = Inr s2"
      and inv2: "Varith_inv m n (?T0 pre \<union> {(nat x, i, j) | i j. i \<le> j \<and> j < length (?L ! nat x)})
          (?T1 pre \<union> {(nat x, i, j) | i j. i < length (?L ! nat x) \<and> j < length (?L ! (nat x - 1))}) s2"
      unfolding xx by blast
    have eq0: "?T0 pre \<union> {(nat x, i, j) | i j. i \<le> j \<and> j < length (?L ! nat x)} = ?T0 (pre @ [x])"
      by auto
    have eq1: "?T1 pre \<union> {(nat x, i, j) | i j. i < length (?L ! nat x) \<and> j < length (?L ! (nat x - 1))} = ?T1 (pre @ [x])"
      by auto
    from inv2 have "Varith_inv m n (?T0 (pre @ [x])) (?T1 (pre @ [x])) s2" unfolding eq0 eq1 .
    with b show "\<exists>s'. Varith_grade m n ?e ?L x s1 = Inr s' \<and> Varith_inv m n (?T0 (pre @ [x])) (?T1 (pre @ [x])) s'"
      by blast
  qed
  then obtain s' where run: "forM [1..?K] (Varith_grade m n ?e ?L) ?s0 = Inr s'"
    and inv: "Varith_inv m n (?T0 [1..?K]) (?T1 [1..?K]) s'" by blast
  have eq0: "?T0 [1..?K] = Varith_done0 m n"
  proof (rule set_eqI, rule iffI)
    fix t assume "t \<in> ?T0 [1..?K]"
    then show "t \<in> Varith_done0 m n" by (auto simp: Varith_done0_def)
  next
    fix t assume "t \<in> Varith_done0 m n"
    then obtain p i j where t: "t = (p, i, j)" and c: "0 < p" "int p \<le> ?K" "i \<le> j" "j < length (?L ! p)"
      by (auto simp: Varith_done0_def)
    have "(nat (int p), i, j) \<in> ?T0 [1..?K]" using c by (intro CollectI exI [of _ "int p"]) auto
    with t show "t \<in> ?T0 [1..?K]" by simp
  qed
  have eq1: "?T1 [1..?K] = Varith_done1 m n"
  proof (rule set_eqI, rule iffI)
    fix t assume "t \<in> ?T1 [1..?K]"
    then show "t \<in> Varith_done1 m n" by (auto simp: Varith_done1_def)
  next
    fix t assume "t \<in> Varith_done1 m n"
    then obtain p i j where t: "t = (p, i, j)"
      and c: "0 < p" "int p \<le> ?K" "i < length (?L ! p)" "j < length (?L ! (p - 1))"
      by (auto simp: Varith_done1_def)
    have "(nat (int p), i, j) \<in> ?T1 [1..?K]" using c by (intro CollectI exI [of _ "int p"]) auto
    with t show "t \<in> ?T1 [1..?K]" by simp
  qed
  from inv have inv': "Varith_inv m n (Varith_done0 m n) (Varith_done1 m n) s'" unfolding eq0 eq1 .
  obtain Z0 Z1 M where s': "s' = (Z0, Z1, M)" by (cases s')
  have "Varith m n = Inr (Tuple (Z0, Z1, M))"
    unfolding Varith_def Let_def using n m run s' by (simp only: tabs ebind_Inr) simp
  with inv' s' show ?thesis by blast
qed

lemma Varith_returns_zero:
  assumes n: "0 \<le> n" and m: "0 \<le> m" and z: "n * m = 0"
  shows "Varith m n = Inr (Tuple ([smul 1 (1 # replicate (nat (n - 1)) 0)], [], [([[0]], [])]))"
    and "Varith_inv m n (Varith_done0 m n) (Varith_done1 m n)
           ([smul 1 (1 # replicate (nat (n - 1)) 0)], [], [([[0]], [])])"
proof -
  show "Varith m n = Inr (Tuple ([smul 1 (1 # replicate (nat (n - 1)) 0)], [], [([[0]], [])]))"
  proof -
    have K: "[1..(n * m + 1) div 2] = []" unfolding z by simp
    have nn: "\<not> (m < 0 \<or> n < 0)" using n m by simp
    show ?thesis unfolding Varith_def Let_def K z using nn by simp
  qed
  have "Varith_done0 m n = {}" "Varith_done1 m n = {}"
    using z by (auto simp: Varith_done0_def Varith_done1_def)
  then show "Varith_inv m n (Varith_done0 m n) (Varith_done1 m n)
           ([smul 1 (1 # replicate (nat (n - 1)) 0)], [], [([[0]], [])])"
    unfolding Varith_inv_def z by (simp del: replicate.simps)
qed

lemma Varith_returns:
  assumes n: "0 \<le> n" and m: "0 \<le> m"
  shows "\<exists>Z0 Z1 M. Varith m n = Inr (Tuple (Z0, Z1, M))
           \<and> Varith_inv m n (Varith_done0 m n) (Varith_done1 m n) (Z0, Z1, M)"
proof (cases "n * m = 0")
  case True
  from Varith_returns_zero [OF n m True] show ?thesis by blast
next
  case False
  with n m have "1 \<le> n" "1 \<le> m" by (auto simp: less_le)
  then show ?thesis by (rule Varith_returns_pos)
qed

section \<open>Reading the tables off the invariants\<close>

lemma names_pool_entry_first_pos:
  "z \<in> set Z \<Longrightarrow> names_pool_entry Z (int (first_pos Z z)) z"
  by (simp add: names_pool_entry_def first_pos_less nth_first_pos first_pos_least)

lemma Vgeom_inv_entry:
  assumes inv: "Vgeom_inv m n (Vgeom_done m n) (Z, M)"
    and p: "int p \<le> (n * m) div 2" and i: "i < length (B m n ! p)" and j: "j < length (B m n ! p)"
  shows "M ! p ! i ! j = M ! p ! j ! i"
    and "names_pool_entry Z (M ! p ! i ! j) (pooled (B m n ! p ! i) (B m n ! p ! j) (n * m - 2 * int p) n)"
proof -
  let ?z = "\<lambda>a b. pooled (B m n ! p ! a) (B m n ! p ! b) (n * m - 2 * int p) n"
  have ent: "?z a b \<in> set Z \<and> M ! p ! a ! b = int (first_pos Z (?z a b)) \<and> M ! p ! b ! a = M ! p ! a ! b"
    if "a \<le> b" "b < length (B m n ! p)" for a b
  proof -
    from that p have "(p, a, b) \<in> Vgeom_done m n" by (simp add: Vgeom_done_def)
    with inv show ?thesis unfolding Vgeom_inv_def by fastforce
  qed
  have "M ! p ! i ! j = M ! p ! j ! i \<and> names_pool_entry Z (M ! p ! i ! j) (?z i j)"
  proof (cases "i \<le> j")
    case True
    from ent [OF True j] show ?thesis by (simp add: names_pool_entry_first_pos)
  next
    case False
    then have ji: "j \<le> i" by simp
    have c: "?z j i = ?z i j" by (rule pooled_commute)
    from ent [OF ji i] show ?thesis unfolding c by (simp add: names_pool_entry_first_pos)
  qed
  then show "M ! p ! i ! j = M ! p ! j ! i"
    and "names_pool_entry Z (M ! p ! i ! j) (?z i j)" by blast+
qed

lemma Vgeom_inv_shape:
  assumes inv: "Vgeom_inv m n S (Z, M)" and p: "int p \<le> (n * m) div 2"
  shows "distinct Z" "length M = nat ((n * m) div 2 + 1)"
    "is_matrix (length (B m n ! p)) (length (B m n ! p)) (M ! p)"
proof -
  from inv show d: "distinct Z" and l: "length M = nat ((n * m) div 2 + 1)"
    by (simp_all add: Vgeom_inv_def)
  from p l have "p < length M" by linarith
  with inv show "is_matrix (length (B m n ! p)) (length (B m n ! p)) (M ! p)"
    by (simp add: Vgeom_inv_def)
qed

lemma Varith_inv_self_entry:
  assumes inv: "Varith_inv m n (Varith_done0 m n) S1 (Z0, Z1, M)"
    and p0: "0 < p" and p: "int p \<le> (n * m + 1) div 2"
    and i: "i < length (B m n ! p)" and j: "j < length (B m n ! p)"
  shows "fst (M ! p) ! i ! j = fst (M ! p) ! j ! i"
    and "names_pool_entry Z0 (fst (M ! p) ! i ! j)
           (pooled (B m n ! p ! i) (B m n ! p ! j) (n * m + 1 - 2 * int p) n)"
proof -
  let ?z = "\<lambda>a b. pooled (B m n ! p ! a) (B m n ! p ! b) (n * m + 1 - 2 * int p) n"
  have ent: "?z a b \<in> set Z0 \<and> fst (M ! p) ! a ! b = int (first_pos Z0 (?z a b))
       \<and> fst (M ! p) ! b ! a = fst (M ! p) ! a ! b"
    if "a \<le> b" "b < length (B m n ! p)" for a b
  proof -
    from that p p0 have "(p, a, b) \<in> Varith_done0 m n" by (simp add: Varith_done0_def)
    with inv show ?thesis unfolding Varith_inv_def by fastforce
  qed
  have "fst (M ! p) ! i ! j = fst (M ! p) ! j ! i \<and> names_pool_entry Z0 (fst (M ! p) ! i ! j) (?z i j)"
  proof (cases "i \<le> j")
    case True
    from ent [OF True j] show ?thesis by (simp add: names_pool_entry_first_pos)
  next
    case False
    then have ji: "j \<le> i" by simp
    have c: "?z j i = ?z i j" by (rule pooled_commute)
    from ent [OF ji i] show ?thesis unfolding c by (simp add: names_pool_entry_first_pos)
  qed
  then show "fst (M ! p) ! i ! j = fst (M ! p) ! j ! i"
    and "names_pool_entry Z0 (fst (M ! p) ! i ! j) (?z i j)" by blast+
qed

lemma Varith_inv_cross_entry:
  assumes inv: "Varith_inv m n S0 (Varith_done1 m n) (Z0, Z1, M)"
    and p0: "0 < p" and p: "int p \<le> (n * m + 1) div 2"
    and i: "i < length (B m n ! p)" and j: "j < length (B m n ! (p - 1))"
  shows "names_pool_entry Z1 (snd (M ! p) ! i ! j)
           (pooled (B m n ! p ! i) (B m n ! (p - 1) ! j) (n * m + 1 - 2 * int p) n)"
proof -
  from i j p p0 have "(p, i, j) \<in> Varith_done1 m n" by (simp add: Varith_done1_def)
  with inv have "pooled (B m n ! p ! i) (B m n ! (p - 1) ! j) (n * m + 1 - 2 * int p) n \<in> set Z1 \<and>
      snd (M ! p) ! i ! j = int (first_pos Z1 (pooled (B m n ! p ! i) (B m n ! (p - 1) ! j) (n * m + 1 - 2 * int p) n))"
    unfolding Varith_inv_def by fastforce
  then show ?thesis by (simp add: names_pool_entry_first_pos)
qed

lemma Varith_inv_shape:
  assumes inv: "Varith_inv m n S0 S1 (Z0, Z1, M)"
  shows "distinct Z0" "distinct Z1" "length M = nat ((n * m + 1) div 2 + 1)"
    "M ! 0 = ([[0]], [])"
    "names_pool_entry Z0 0 (smul (n * m + 1) (1 # replicate (nat (n - 1)) 0))"
    "\<And>p. 0 < p \<Longrightarrow> int p \<le> (n * m + 1) div 2 \<Longrightarrow>
        is_matrix (length (B m n ! p)) (length (B m n ! p)) (fst (M ! p)) \<and>
        is_matrix (length (B m n ! p)) (length (B m n ! (p - 1))) (snd (M ! p))"
proof -
  from inv show "distinct Z0" "distinct Z1" and l: "length M = nat ((n * m + 1) div 2 + 1)"
    and "M ! 0 = ([[0]], [])"
    by (simp_all add: Varith_inv_def)
  from inv have "Z0 \<noteq> []" "Z0 ! 0 = smul (n * m + 1) (1 # replicate (nat (n - 1)) 0)"
    by (simp_all add: Varith_inv_def)
  then show "names_pool_entry Z0 0 (smul (n * m + 1) (1 # replicate (nat (n - 1)) 0))"
    by (simp add: names_pool_entry_def)
  fix p :: nat assume "0 < p" "int p \<le> (n * m + 1) div 2"
  with l have "0 < p \<and> p < length M" by linarith
  with inv show "is_matrix (length (B m n ! p)) (length (B m n ! p)) (fst (M ! p)) \<and>
        is_matrix (length (B m n ! p)) (length (B m n ! (p - 1))) (snd (M ! p))"
    unfolding Varith_inv_def by blast
qed

lemma Vgeom_body_append_only:
  "Vgeom_body m n e l p i j (Z, M) = Inr (Z', M') \<Longrightarrow> prefix Z Z'"
  by (auto simp: Vgeom_body_def ebind_def Let_def split: sum.splits if_splits)

lemma Varith_self_append_only:
  "Varith_self m n e l p i j (Z0, Z1, M) = Inr (Z0', Z1', M') \<Longrightarrow> prefix Z0 Z0' \<and> Z1' = Z1"
  by (auto simp: Varith_self_def ebind_def Let_def split: sum.splits if_splits)

lemma Varith_cross_append_only:
  "Varith_cross m n e l l2 p i j (Z0, Z1, M) = Inr (Z0', Z1', M') \<Longrightarrow> Z0' = Z0 \<and> prefix Z1 Z1'"
  by (auto simp: Varith_cross_def ebind_def Let_def split: sum.splits if_splits)

section \<open>The geometric tables in rank zero\<close>

text \<open>For \<open>n = 0\<close> the only basis vector is the empty one, in grade \<open>0\<close>, while
  \<^verbatim>\<open>e = vector([1]+[0]*(n-1))\<close> is \<^verbatim>\<open>vector([1])\<close>: the first pass of the innermost loop of
  \<^verbatim>\<open>Vgeom\<close> adds a vector of rank \<open>1\<close> to one of rank \<open>0\<close>.\<close>

lemma basis_list_rank_zero: "0 \<le> m \<Longrightarrow> basis_list m 0 = [[]]"
proof -
  assume m: "0 \<le> m"
  have u: "[0..m] = 0 # [1..m]" using m by (simp add: upto_rec1)
  have "concat (map (\<lambda>j. IntegerVectors j 0) [1..m]) = []"
    by (auto simp: IntegerVectors_def)
  then show ?thesis unfolding basis_list_def u by (simp add: IntegerVectors_def)
qed

lemma B_rank_zero: "0 \<le> m \<Longrightarrow> B m 0 = [[[]]]"
  by (simp add: B_basis_list basis_list_rank_zero)

lemma Vgeom_rank_zero: "0 \<le> m \<Longrightarrow> Vgeom m 0 = Inl TypeError"
  by (simp add: Vgeom_def B_rank_zero Let_def Vgeom_grade_def list_get_def Vgeom_body_def
        vadd_def smul_def ebind_def)

section \<open>The pairing tables and their pools\<close>

text \<open>
  Counterexample to claim C7 as stated.  The claim is stated for all \<open>m, n \<ge> 0\<close>.  For \<open>n = 0\<close> the vectors
  of the basis have rank \<open>0\<close> while \<open>e = vector([1]+[0]*(n-1))\<close> has rank \<open>1\<close>, so the first
  sum \<open>l[i]+l[j]+(n*m-2*p)*e\<close> raises \<open>TypeError\<close> and \<open>Vgeom\<close> returns no table.
\<close>

theorem C7_counterexample_rank_zero: "Vgeom 0 0 = Inl TypeError"
  by code_simp

text \<open>
  Claim C7, as amended.  For \<open>m \<ge> 0\<close> and \<open>n \<ge> 1\<close>, \<open>Vgeom(m,n)\<close> returns a pool \<open>Z\<close> and
  one table \<open>M[p]\<close> for each grade \<open>p = 0..floor(m*n/2)\<close>; \<open>M[p]\<close> is square of size the
  number of grade-\<open>p\<close> basis vectors, symmetric, and its entry \<open>(i,j)\<close> is the position in
  \<open>Z\<close> of the vector \<open>v_i + v_j + (m*n - 2p) e1\<close>.  For every \<open>m \<ge> 0\<close> and \<open>n = 0\<close>,
  \<open>Vgeom(m,n)\<close> raises \<open>TypeError\<close>.
\<close>

theorem C7_Vgeom_tables_symmetric:
  assumes "0 \<le> m" "0 \<le> n"
  shows "(1 \<le> n \<longrightarrow>
     (\<exists>Z M. Vgeom m n = Inr (Tuple (Z, M)) \<and> length M = nat ((m * n) div 2 + 1) \<and>
       (\<forall>p. int p \<le> (m * n) div 2 \<longrightarrow>
          is_matrix (length (B m n ! p)) (length (B m n ! p)) (M ! p) \<and>
          (\<forall>i<length (B m n ! p). \<forall>j<length (B m n ! p).
              M ! p ! i ! j = M ! p ! j ! i \<and>
              names_pool_entry Z (M ! p ! i ! j)
                (pooled (B m n ! p ! i) (B m n ! p ! j) (m * n - 2 * int p) n)))))
   \<and> (n = 0 \<longrightarrow> Vgeom m n = Inl TypeError)"
proof (intro conjI impI)
  assume "n = 0"
  with Vgeom_rank_zero [OF assms(1)] show "Vgeom m n = Inl TypeError" by simp
next
  assume n: "1 \<le> n"
  from Vgeom_returns [OF n assms(1)] obtain Z M where
    r: "Vgeom m n = Inr (Tuple (Z, M))" and inv: "Vgeom_inv m n (Vgeom_done m n) (Z, M)" by blast
  have c: "m * n = n * m" by simp
  have "length M = nat ((m * n) div 2 + 1)"
    unfolding c using Vgeom_inv_shape(2) [OF inv, of 0] assms n by simp
  moreover have "is_matrix (length (B m n ! p)) (length (B m n ! p)) (M ! p)"
    if "int p \<le> (m * n) div 2" for p
    using that unfolding c by (rule Vgeom_inv_shape(3) [OF inv])
  moreover have "M ! p ! i ! j = M ! p ! j ! i \<and>
            names_pool_entry Z (M ! p ! i ! j)
              (pooled (B m n ! p ! i) (B m n ! p ! j) (m * n - 2 * int p) n)"
    if "int p \<le> (m * n) div 2" "i < length (B m n ! p)" "j < length (B m n ! p)" for p i j
    using Vgeom_inv_entry [OF inv, of p i j] that unfolding c by blast
  ultimately show "\<exists>Z M. Vgeom m n = Inr (Tuple (Z, M)) \<and> length M = nat ((m * n) div 2 + 1) \<and>
       (\<forall>p. int p \<le> (m * n) div 2 \<longrightarrow>
          is_matrix (length (B m n ! p)) (length (B m n ! p)) (M ! p) \<and>
          (\<forall>i<length (B m n ! p). \<forall>j<length (B m n ! p).
              M ! p ! i ! j = M ! p ! j ! i \<and>
              names_pool_entry Z (M ! p ! i ! j)
                (pooled (B m n ! p ! i) (B m n ! p ! j) (m * n - 2 * int p) n)))"
    using r by blast
qed

theorem C7_Vgeom_tables_symmetric_witness:
  "(0::int) \<le> 2 \<and> (1::int) \<le> 2 \<and>
   (\<exists>Z M. Vgeom 2 2 = Inr (Tuple (Z, M)) \<and> length M = 3 \<and> is_matrix 2 2 (M ! 2)
      \<and> M ! 2 ! 0 ! 1 = M ! 2 ! 1 ! 0
      \<and> names_pool_entry Z (M ! 2 ! 0 ! 1) [2, 1])
   \<and> Vgeom 2 0 = Inl TypeError"
proof -
  have h: "(0::int) \<le> 2" and h0: "(0::int) \<le> 0" and h1: "(1::int) \<le> 2" by simp_all
  note t1 = C7_Vgeom_tables_symmetric [OF h h, THEN conjunct1, rule_format, OF h1]
  note t0 = C7_Vgeom_tables_symmetric [OF h h0, THEN conjunct2, rule_format, OF refl]
  from t1 obtain Z M where
    r: "Vgeom 2 2 = Inr (Tuple (Z, M))" and l: "length M = nat ((2 * 2) div 2 + 1)"
    and t: "\<And>p. int p \<le> (2 * 2) div 2 \<Longrightarrow>
        is_matrix (length (B 2 2 ! p)) (length (B 2 2 ! p)) (M ! p) \<and>
        (\<forall>i<length (B 2 2 ! p). \<forall>j<length (B 2 2 ! p).
            M ! p ! i ! j = M ! p ! j ! i \<and>
            names_pool_entry Z (M ! p ! i ! j)
              (pooled (B 2 2 ! p ! i) (B 2 2 ! p ! j) (2 * 2 - 2 * int p) 2))"
    by auto
  have b: "B 2 2 ! 2 = [[0, 1], [2, 0]]" by code_simp
  have len: "length (B 2 2 ! 2) = 2" unfolding b by simp
  have z: "pooled (B 2 2 ! 2 ! 0) (B 2 2 ! 2 ! 1) (2 * 2 - 2 * int 2) 2 = [2, 1]"
    unfolding b by code_simp
  from t [of 2] have sh: "is_matrix (length (B 2 2 ! 2)) (length (B 2 2 ! 2)) (M ! 2)"
    and e: "\<forall>i<length (B 2 2 ! 2). \<forall>j<length (B 2 2 ! 2).
            M ! 2 ! i ! j = M ! 2 ! j ! i \<and>
            names_pool_entry Z (M ! 2 ! i ! j)
              (pooled (B 2 2 ! 2 ! i) (B 2 2 ! 2 ! j) (2 * 2 - 2 * int 2) 2)"
    by simp_all
  from sh have sh2: "is_matrix 2 2 (M ! 2)" unfolding len .
  have lt: "(0::nat) < 2" "(1::nat) < 2" by simp_all
  from e [unfolded len] lt have "M ! 2 ! 0 ! 1 = M ! 2 ! 1 ! 0 \<and>
      names_pool_entry Z (M ! 2 ! 0 ! 1) (pooled (B 2 2 ! 2 ! 0) (B 2 2 ! 2 ! 1) (2 * 2 - 2 * int 2) 2)"
    by blast
  then have e2: "M ! 2 ! 0 ! 1 = M ! 2 ! 1 ! 0 \<and> names_pool_entry Z (M ! 2 ! 0 ! 1) [2, 1]"
    unfolding z .
  from l have l3: "length M = 3" by simp
  from r l3 sh2 e2 have "\<exists>Z M. Vgeom 2 2 = Inr (Tuple (Z, M)) \<and> length M = 3 \<and> is_matrix 2 2 (M ! 2)
      \<and> M ! 2 ! 0 ! 1 = M ! 2 ! 1 ! 0
      \<and> names_pool_entry Z (M ! 2 ! 0 ! 1) [2, 1]" by blast
  with t0 show ?thesis by simp
qed

text \<open>
  Counterexample to claim C8 as stated.  The claim includes \<open>Vgeom(m,n)\<close> for \<open>n = 0\<close>, where no pool is
  returned.
\<close>

theorem C8_counterexample_rank_zero: "Vgeom 1 0 = Inl TypeError"
  by code_simp

text \<open>
  Claim C8, as amended.  For \<open>m \<ge> 0\<close>: the pool returned by \<open>Vgeom(m,n)\<close> when \<open>n \<ge> 1\<close>, and the two pools returned
  by \<open>Varith(m,n)\<close> when \<open>n \<ge> 0\<close>, hold no vector twice; every index stored in the tables
  is the position at which its vector first entered the pool; and each pass of a loop
  body leaves the old pool as a prefix of the new one, so that a position once given to a
  vector stays its position.  For every \<open>m \<ge> 0\<close>, \<open>Vgeom(m,0)\<close> returns no pool: it raises
  \<open>TypeError\<close>.
\<close>

theorem C8_pools_deduplicated:
  assumes "0 \<le> m" "0 \<le> n"
  shows "(1 \<le> n \<longrightarrow>
          (\<exists>Z M. Vgeom m n = Inr (Tuple (Z, M)) \<and> distinct Z \<and>
             (\<forall>p i j. int p \<le> (n * m) div 2 \<and> i < length (B m n ! p) \<and> j < length (B m n ! p) \<longrightarrow>
                names_pool_entry Z (M ! p ! i ! j)
                  (pooled (B m n ! p ! i) (B m n ! p ! j) (n * m - 2 * int p) n))))
       \<and> (\<exists>Z0 Z1 M. Varith m n = Inr (Tuple (Z0, Z1, M)) \<and> distinct Z0 \<and> distinct Z1 \<and>
             names_pool_entry Z0 (fst (M ! 0) ! 0 ! 0) (smul (n * m + 1) (1 # replicate (nat (n - 1)) 0)) \<and>
             (\<forall>p i j. 0 < p \<and> int p \<le> (n * m + 1) div 2 \<and> i < length (B m n ! p) \<longrightarrow>
                (j < length (B m n ! p) \<longrightarrow>
                   names_pool_entry Z0 (fst (M ! p) ! i ! j)
                     (pooled (B m n ! p ! i) (B m n ! p ! j) (n * m + 1 - 2 * int p) n)) \<and>
                (j < length (B m n ! (p - 1)) \<longrightarrow>
                   names_pool_entry Z1 (snd (M ! p) ! i ! j)
                     (pooled (B m n ! p ! i) (B m n ! (p - 1) ! j) (n * m + 1 - 2 * int p) n))))
       \<and> (\<forall>e l p i j Z M Z' M'.
             Vgeom_body m n e l p i j (Z, M) = Inr (Z', M') \<longrightarrow> prefix Z Z')
       \<and> (\<forall>e l p i j Z0 Z1 M Z0' Z1' M'.
             Varith_self m n e l p i j (Z0, Z1, M) = Inr (Z0', Z1', M') \<longrightarrow> prefix Z0 Z0' \<and> Z1' = Z1)
       \<and> (\<forall>e l l2 p i j Z0 Z1 M Z0' Z1' M'.
             Varith_cross m n e l l2 p i j (Z0, Z1, M) = Inr (Z0', Z1', M') \<longrightarrow> Z0' = Z0 \<and> prefix Z1 Z1')
       \<and> (n = 0 \<longrightarrow> Vgeom m n = Inl TypeError)"
proof (intro conjI)
  show "n = 0 \<longrightarrow> Vgeom m n = Inl TypeError"
    using Vgeom_rank_zero [OF assms(1)] by simp
next
  show "1 \<le> n \<longrightarrow>
          (\<exists>Z M. Vgeom m n = Inr (Tuple (Z, M)) \<and> distinct Z \<and>
             (\<forall>p i j. int p \<le> (n * m) div 2 \<and> i < length (B m n ! p) \<and> j < length (B m n ! p) \<longrightarrow>
                names_pool_entry Z (M ! p ! i ! j)
                  (pooled (B m n ! p ! i) (B m n ! p ! j) (n * m - 2 * int p) n)))"
  proof
    assume n: "1 \<le> n"
    from Vgeom_returns [OF n assms(1)] obtain Z M where
      r: "Vgeom m n = Inr (Tuple (Z, M))" and inv: "Vgeom_inv m n (Vgeom_done m n) (Z, M)" by blast
    have "distinct Z" using Vgeom_inv_shape(1) [OF inv, of 0] assms n by simp
    moreover have "names_pool_entry Z (M ! p ! i ! j)
                  (pooled (B m n ! p ! i) (B m n ! p ! j) (n * m - 2 * int p) n)"
      if "int p \<le> (n * m) div 2" "i < length (B m n ! p)" "j < length (B m n ! p)" for p i j
      using that by (rule Vgeom_inv_entry(2) [OF inv])
    ultimately show "\<exists>Z M. Vgeom m n = Inr (Tuple (Z, M)) \<and> distinct Z \<and>
             (\<forall>p i j. int p \<le> (n * m) div 2 \<and> i < length (B m n ! p) \<and> j < length (B m n ! p) \<longrightarrow>
                names_pool_entry Z (M ! p ! i ! j)
                  (pooled (B m n ! p ! i) (B m n ! p ! j) (n * m - 2 * int p) n))"
      using r by blast
  qed
next
  from Varith_returns [OF assms(2,1)] obtain Z0 Z1 M where
    r: "Varith m n = Inr (Tuple (Z0, Z1, M))"
    and inv: "Varith_inv m n (Varith_done0 m n) (Varith_done1 m n) (Z0, Z1, M)" by blast
  note sh = Varith_inv_shape [OF inv]
  have e0: "names_pool_entry Z0 (fst (M ! 0) ! 0 ! 0) (smul (n * m + 1) (1 # replicate (nat (n - 1)) 0))"
    using sh(5) unfolding sh(4) by simp
  have e1: "names_pool_entry Z0 (fst (M ! p) ! i ! j)
                     (pooled (B m n ! p ! i) (B m n ! p ! j) (n * m + 1 - 2 * int p) n)"
    if "0 < p" "int p \<le> (n * m + 1) div 2" "i < length (B m n ! p)" "j < length (B m n ! p)" for p i j
    using that by (rule Varith_inv_self_entry(2) [OF inv])
  have e2: "names_pool_entry Z1 (snd (M ! p) ! i ! j)
                     (pooled (B m n ! p ! i) (B m n ! (p - 1) ! j) (n * m + 1 - 2 * int p) n)"
    if "0 < p" "int p \<le> (n * m + 1) div 2" "i < length (B m n ! p)" "j < length (B m n ! (p - 1))" for p i j
    using that by (rule Varith_inv_cross_entry [OF inv])
  show "\<exists>Z0 Z1 M. Varith m n = Inr (Tuple (Z0, Z1, M)) \<and> distinct Z0 \<and> distinct Z1 \<and>
             names_pool_entry Z0 (fst (M ! 0) ! 0 ! 0) (smul (n * m + 1) (1 # replicate (nat (n - 1)) 0)) \<and>
             (\<forall>p i j. 0 < p \<and> int p \<le> (n * m + 1) div 2 \<and> i < length (B m n ! p) \<longrightarrow>
                (j < length (B m n ! p) \<longrightarrow>
                   names_pool_entry Z0 (fst (M ! p) ! i ! j)
                     (pooled (B m n ! p ! i) (B m n ! p ! j) (n * m + 1 - 2 * int p) n)) \<and>
                (j < length (B m n ! (p - 1)) \<longrightarrow>
                   names_pool_entry Z1 (snd (M ! p) ! i ! j)
                     (pooled (B m n ! p ! i) (B m n ! (p - 1) ! j) (n * m + 1 - 2 * int p) n)))"
    using r sh(1,2) e0 e1 e2 by blast
next
  show "\<forall>e l p i j Z M Z' M'.
             Vgeom_body m n e l p i j (Z, M) = Inr (Z', M') \<longrightarrow> prefix Z Z'"
    using Vgeom_body_append_only by blast
  show "\<forall>e l p i j Z0 Z1 M Z0' Z1' M'.
             Varith_self m n e l p i j (Z0, Z1, M) = Inr (Z0', Z1', M') \<longrightarrow> prefix Z0 Z0' \<and> Z1' = Z1"
    using Varith_self_append_only by blast
  show "\<forall>e l l2 p i j Z0 Z1 M Z0' Z1' M'.
             Varith_cross m n e l l2 p i j (Z0, Z1, M) = Inr (Z0', Z1', M') \<longrightarrow> Z0' = Z0 \<and> prefix Z1 Z1'"
    using Varith_cross_append_only by blast
qed

theorem C8_pools_deduplicated_witness:
  "(0::int) \<le> 2 \<and> (0::int) \<le> 2
   \<and> (\<exists>Z M. Vgeom 2 2 = Inr (Tuple (Z, M)) \<and> distinct Z
          \<and> names_pool_entry Z (M ! 2 ! 0 ! 1) [2, 1])
   \<and> (\<exists>Z0 Z1 M. Varith 2 2 = Inr (Tuple (Z0, Z1, M)) \<and> distinct Z0 \<and> distinct Z1
          \<and> names_pool_entry Z1 (snd (M ! 2) ! 1 ! 0) [4, 0])
   \<and> prefix [[4, 0]] [[4, 0], [0, 2]]
   \<and> Vgeom 3 0 = Inl TypeError"
proof -
  have h: "(0::int) \<le> 2" by simp
  have h1: "(1::int) \<le> 2" by simp
  have h3: "(0::int) \<le> 3" and h0: "(0::int) \<le> 0" by simp_all
  note t = C8_pools_deduplicated [OF h h]
  note t0 = C8_pools_deduplicated [OF h3 h0, THEN conjunct2, THEN conjunct2, THEN conjunct2,
    THEN conjunct2, THEN conjunct2, rule_format, OF refl]
  have b2: "B 2 2 ! 2 = [[0, 1], [2, 0]]" by code_simp
  have b1: "B 2 2 ! (2 - 1) = [[1, 0]]" by code_simp
  have len2: "(0::nat) < length (B 2 2 ! 2)" "(1::nat) < length (B 2 2 ! 2)" unfolding b2 by simp_all
  have len1: "(0::nat) < length (B 2 2 ! (2 - 1))" unfolding b1 by simp
  have K: "int 2 \<le> (2 * 2) div 2" "(0::nat) < 2 \<and> int 2 \<le> (2 * 2 + 1) div 2" by simp_all
  have z: "pooled (B 2 2 ! 2 ! 0) (B 2 2 ! 2 ! 1) (2 * 2 - 2 * int 2) 2 = [2, 1]"
    unfolding b2 by code_simp
  have z1: "pooled (B 2 2 ! 2 ! 1) (B 2 2 ! (2 - 1) ! 0) (2 * 2 + 1 - 2 * int 2) 2 = [4, 0]"
    unfolding b2 b1 by code_simp
  note t1 = t [THEN conjunct1, rule_format, OF h1]
  note t2 = t [THEN conjunct2, THEN conjunct1]
  note t3 = t [THEN conjunct2, THEN conjunct2, THEN conjunct1, rule_format]
  from t1 obtain Z M where v: "Vgeom 2 2 = Inr (Tuple (Z, M))" "distinct Z"
    and ve: "\<And>p i j. int p \<le> (2 * 2) div 2 \<and> i < length (B 2 2 ! p) \<and> j < length (B 2 2 ! p) \<Longrightarrow>
                names_pool_entry Z (M ! p ! i ! j)
                  (pooled (B 2 2 ! p ! i) (B 2 2 ! p ! j) (2 * 2 - 2 * int p) 2)"
    by blast
  from ve [of 2 0 1] K len2 have "names_pool_entry Z (M ! 2 ! 0 ! 1) [2, 1]" unfolding z by blast
  with v have A: "\<exists>Z M. Vgeom 2 2 = Inr (Tuple (Z, M)) \<and> distinct Z
          \<and> names_pool_entry Z (M ! 2 ! 0 ! 1) [2, 1]" by blast
  from t2 obtain Z0 Z1 M' where a: "Varith 2 2 = Inr (Tuple (Z0, Z1, M'))" "distinct Z0" "distinct Z1"
    and ae: "\<And>p i j. 0 < p \<and> int p \<le> (2 * 2 + 1) div 2 \<and> i < length (B 2 2 ! p) \<Longrightarrow>
                j < length (B 2 2 ! (p - 1)) \<Longrightarrow>
                   names_pool_entry Z1 (snd (M' ! p) ! i ! j)
                     (pooled (B 2 2 ! p ! i) (B 2 2 ! (p - 1) ! j) (2 * 2 + 1 - 2 * int p) 2)"
    by blast
  from ae [of 2 1 0] K len2 len1 have "names_pool_entry Z1 (snd (M' ! 2) ! 1 ! 0) [4, 0]"
    unfolding z1 by blast
  with a have Bq: "\<exists>Z0 Z1 M. Varith 2 2 = Inr (Tuple (Z0, Z1, M)) \<and> distinct Z0 \<and> distinct Z1
          \<and> names_pool_entry Z1 (snd (M ! 2) ! 1 ! 0) [4, 0]" by blast
  have step: "Vgeom_body 2 2 [1, 0] [[0, 1], [2, 0]] 2 0 0 ([[4, 0]], [[[0]], [[0]], [[0, 0], [0, 0]]])
      = Inr ([[4, 0], [0, 2]], [[[0]], [[0]], [[1, 0], [0, 0]]])"
    by code_simp
  from step have C: "prefix [[4, 0]] [[4, 0], [0, 2 :: int]]" by (rule t3)
  from A Bq C t0 show ?thesis by simp
qed

section \<open>Totality of the arithmetic degree\<close>

lemma length_fold_append:
  "length (fold (\<lambda>k H. H @ [g k H]) ks H0) = length H0 + length ks"
  by (induction ks arbitrary: H0) auto

lemma length_harm_list: "length (harm_list k) = nat k + 1"
  by (simp add: harm_list_def length_fold_append)

lemma set_Tam:
  "(a, b, j) \<in> set (Tam m n) \<Longrightarrow>
     0 \<le> a \<and> a \<le> m - 1 \<and> 0 \<le> j \<and> j \<le> n - 1 \<and> j + 1 \<le> b \<and> b \<le> n - 1 \<and> b \<le> m + n - a - j - 1"
  by (auto simp: Tam_def)

lemma forM_total:
  "(\<And>x s. x \<in> set xs \<Longrightarrow> \<exists>s'. f x s = Inr s') \<Longrightarrow> \<exists>s'. forM xs f s = Inr s'"
  using forM_invariant [where I = "\<lambda>_ _. True" and xs = xs and f = f and s = s] by blast

lemma mapM_total:
  "(\<And>x. x \<in> set xs \<Longrightarrow> \<exists>y. f x = Inr y) \<Longrightarrow> \<exists>ys. mapM f xs = Inr ys \<and> length ys = length xs"
proof (induction xs)
  case Nil then show ?case by simp
next
  case (Cons x xs)
  from Cons.prems obtain y where y: "f x = Inr y" by auto
  from Cons obtain ys where "mapM f xs = Inr ys" "length ys = length xs" by auto
  with y show ?case by simp
qed

text \<open>The table built in one pass of the loop of adeg, entry by entry.\<close>

lemma length_tam_shape:
  assumes "1 \<le> b" "b \<le> n - 1" "0 \<le> j" "j < b"
  shows "length (tam_shape m n a b j) = nat n"
  using assms by (simp add: tam_shape_def)

lemma nth_tam_shape:
  assumes "1 \<le> b" "b \<le> n - 1" "0 \<le> j" "j < b" "k < nat n"
  shows "tam_shape m n a b j ! k =
     (if k < nat (n - 1) then m - 1 else a) + (if k < nat b then 1 else 0)
       + (if k = 0 then m + n - a - b - j else if k \<le> nat j then 1 else 0)"
proof -
  let ?A = "replicate (nat (n - 1)) (m - 1) @ [a]"
  let ?B = "replicate (nat b) (1::int) @ replicate (nat (n - b)) 0"
  let ?C = "[m + n - a - b - j] @ replicate (nat j) 1 @ replicate (nat (n - j - 1)) 0"
  have lA: "length ?A = nat n" using assms by simp
  have lB: "length ?B = nat n" using assms by simp
  have lC: "length ?C = nat n" using assms by simp
  have A: "?A ! k = (if k < nat (n - 1) then m - 1 else a)"
    using assms by (auto simp: nth_append)
  have B: "?B ! k = (if k < nat b then 1 else 0)"
    using assms lB by (auto simp: nth_append)
  have C: "?C ! k = (if k = 0 then m + n - a - b - j else if k \<le> nat j then 1 else 0)"
  proof (cases k)
    case 0 then show ?thesis by simp
  next
    case (Suc k')
    with assms lC show ?thesis by (auto simp: nth_append)
  qed
  have "tam_shape m n a b j ! k = ?A ! k + ?B ! k + ?C ! k"
    unfolding tam_shape_def using assms(5) lA lB lC by (simp del: replicate.simps append.simps)
  then show ?thesis by (simp only: A B C)
qed

lemma tam_shape_partition:
  assumes t: "(a, b, j) \<in> set (Tam m n)"
  shows "(\<forall>x\<in>set (tam_shape m n a b j). 0 \<le> x) \<and> sorted (rev (tam_shape m n a b j))"
proof -
  from set_Tam [OF t] have bd: "0 \<le> a" "a \<le> m - 1" "0 \<le> j" "j + 1 \<le> b" "b \<le> n - 1"
    "b \<le> m + n - a - j - 1" by blast+
  then have c: "1 \<le> b" "b \<le> n - 1" "0 \<le> j" "j < b" by linarith+
  let ?l = "tam_shape m n a b j"
  have len: "length ?l = nat n" using c by (rule length_tam_shape)
  note nth = nth_tam_shape [OF c]
  have val: "?l ! k = (if k = 0 then 2 * m + n - a - b - j
                       else if k < nat (n - 1) then m - 1 + (if k < nat b then 1 else 0) + (if k \<le> nat j then 1 else 0)
                       else a)" if "k < nat n" for k
  proof -
    from that bd have "k < nat (n - 1) \<or> k = nat (n - 1)" by linarith
    then show ?thesis
    proof
      assume "k < nat (n - 1)" then show ?thesis using nth [OF that] bd by auto
    next
      assume k: "k = nat (n - 1)"
      with bd have "\<not> k < nat b" "\<not> k \<le> nat j" "k \<noteq> 0" by linarith+
      with k show ?thesis using nth [OF that] by simp
    qed
  qed
  have nonneg: "0 \<le> ?l ! k" if "k < nat n" for k
    using val [OF that] bd by (auto split: if_splits)
  have mono: "?l ! k \<le> ?l ! i" if ik: "i \<le> k" and kn: "k < nat n" for i k
  proof -
    from ik kn have i: "i < nat n" by simp
    consider (eq) "i = k" | (zero) "i = 0" "0 < k" | (mid) "0 < i" "i < k" using ik by linarith
    then show ?thesis
    proof cases
      case eq then show ?thesis by simp
    next
      case zero
      have "?l ! k \<le> m + 1" using val [OF kn] bd zero by (auto split: if_splits)
      moreover have "m + 1 \<le> ?l ! i" using val [OF i] bd zero by simp
      ultimately show ?thesis by linarith
    next
      case mid
      then have ik1: "i < nat (n - 1)" using kn by linarith
      have vi: "?l ! i = m - 1 + (if i < nat b then 1 else 0) + (if i \<le> nat j then 1 else 0)"
        using val [OF i] mid ik1 by simp
      show ?thesis
      proof (cases "k < nat (n - 1)")
        case True
        have vk: "?l ! k = m - 1 + (if k < nat b then 1 else 0) + (if k \<le> nat j then 1 else 0)"
          using val [OF kn] mid True by simp
        from mid have "(if k < nat b then 1 else 0) \<le> (if i < nat b then 1 else (0::int))"
          "(if k \<le> nat j then 1 else 0) \<le> (if i \<le> nat j then 1 else (0::int))" by auto
        then show ?thesis unfolding vi vk by linarith
      next
        case False
        then have "?l ! k = a" using val [OF kn] mid by simp
        moreover have "m - 1 \<le> ?l ! i" unfolding vi by simp
        ultimately show ?thesis using bd by linarith
      qed
    qed
  qed
  have "\<forall>x\<in>set ?l. 0 \<le> x" using nonneg len by (auto simp: in_set_conv_nth)
  moreover have "sorted (rev ?l)"
    unfolding sorted_rev_iff_nth_mono using mono len by auto
  ultimately show ?thesis by blast
qed

lemma adeg_term_total:
  assumes t: "(a, b, j) \<in> set (Tam m n)" and H: "length H = nat (m + n)"
  shows "\<exists>s'. adeg_term m n w H (a, b, j) s = Inr s'"
proof -
  from set_Tam [OF t] have bd: "0 \<le> a" "a \<le> m - 1" "0 \<le> j" "j + 1 \<le> b" "b \<le> n - 1"
    "b \<le> m + n - a - j - 1" by blast+
  from tam_shape_partition [OF t]
  have P: "Partition (tam_shape m n a b j) = Inr (filter (\<lambda>x. x \<noteq> 0) (tam_shape m n a b j))"
    by (simp add: Partition_def)
  have h1: "\<exists>y. list_get H (m + n - a - j - 1) = Inr y"
    using bd H by (simp add: list_get_def Let_def)
  have h2: "\<exists>y. list_get H (m + n - a - b - 1) = Inr y"
    using bd H by (simp add: list_get_def Let_def)
  from h1 h2 obtain y1 y2 where y: "list_get H (m + n - a - j - 1) = Inr y1"
    "list_get H (m + n - a - b - 1) = Inr y2" by blast
  show ?thesis
    unfolding adeg_term_def prod.case Let_def tam_shape_def [symmetric]
    by (simp only: P y ebind_Inr) blast
qed

lemma adeg_total:
  assumes r: "r \<noteq> []" and c: "(weight r - 1) mod int (length r) = 0"
  shows "\<exists>q. adeg r None None = Inr q"
proof -
  let ?n = "int (length r)"
  let ?m = "(weight r - 1) div ?n"
  let ?H = "harm_list (?m + ?n - 1)"
  from r have n: "1 \<le> ?n" by (cases r) auto
  have hs: "\<exists>hs. mapM (list_get ?H) [?n..?m + ?n - 1] = Inr hs \<and> length hs = length [?n..?m + ?n - 1]"
  proof (rule mapM_total)
    fix k assume "k \<in> set [?n..?m + ?n - 1]"
    then have "0 \<le> k" "k < ?m + ?n" using n by auto
    then show "\<exists>y. list_get ?H k = Inr y"
      by (simp add: list_get_def Let_def length_harm_list)
  qed
  then obtain hs where hs: "mapM (list_get ?H) [?n..?m + ?n - 1] = Inr hs" by blast
  have loop: "\<exists>s'. forM (Tam ?m ?n) (adeg_term ?m ?n w ?H) s = Inr s'" for w s
  proof (rule forM_total)
    fix x s assume x: "x \<in> set (Tam ?m ?n)"
    obtain a b j where xe: "x = (a, b, j)" by (cases x)
    from x xe set_Tam [of a b j ?m ?n] have "1 \<le> ?m" by auto
    then have "length ?H = nat (?m + ?n)" using n by (simp add: length_harm_list) 
    with x xe show "\<exists>s'. adeg_term ?m ?n w ?H x s = Inr s'" using adeg_term_total by blast
  qed
  from loop obtain s' where s': "forM (Tam ?m ?n) (adeg_term ?m ?n (mu r) ?H)
      (of_int (kostka (replicate (nat ?m) ?n @ [1]) (mu r)) * sum_list hs) = Inr s'" by blast
  have "adeg r None None = Inr (s' / 2)"
    unfolding adeg_def Let_def using n c r by (simp add: hs s')
  then show ?thesis by blast
qed

lemma map_const_upto: "map (\<lambda>j. c) [1..m] = replicate (nat m) c"
  by (simp add: map_replicate_const)

lemma gdeg_cases:
  assumes "r \<noteq> []"
  shows "gdeg r = (if weight r mod int (length r) \<noteq> 0 then Inl ValueError
                   else Inr (kostka (replicate (nat (weight r div int (length r))) (int (length r))) (mu r)))"
  using assms by (simp add: gdeg_def Let_def map_const_upto)

lemma adeg_raises:
  assumes "r \<noteq> []" "(weight r - 1) mod int (length r) \<noteq> 0"
  shows "adeg r T H = Inl ValueError"
  using assms by (simp add: adeg_def Let_def)

lemma adeg_tables_supplied:
  "adeg r (Some (Tam ((weight r - 1) div int (length r)) (int (length r))))
          (Some (harm_list ((weight r - 1) div int (length r) + int (length r) - 1)))
   = adeg r None None"
  by (simp add: adeg_def Let_def)

section \<open>Preconditions of the degree functions\<close>

text \<open>
  Counterexample to claim C2 as stated.  The claim says that \<open>adeg(r)\<close> raises \<open>ValueError\<close> exactly when
  \<open>weight(r) mod len(r)\<close> is not \<open>1\<close>.  The test in the code is \<open>(p-1)%n != 0\<close>: for a
  vector of length \<open>1\<close> the remainder \<open>weight(r) mod 1\<close> is \<open>0\<close>, never \<open>1\<close>, and yet
  \<open>adeg\<close> returns (\<open>adeg((2,)) = 1/2\<close>).
\<close>

theorem C2_counterexample_length_one:
  "weight [2] mod int (length [2::int]) \<noteq> 1 \<and> adeg [2] None None = Inr (1 / 2)"
proof -
  have "weight [2] = 2" by code_simp
  moreover have "adeg [2] None None = Inr (1 / 2)" by code_simp
  ultimately show ?thesis by simp
qed

text \<open>
  Claim C2, as amended.  For every non-empty vector \<open>r\<close>: \<open>gdeg(r)\<close> raises \<open>ValueError\<close> exactly when \<open>weight(r)\<close>
  is not a multiple of \<open>len(r)\<close> and otherwise returns the Kostka number of the rectangular
  shape \<open>(n)^m\<close> with the content \<open>w\<close> built from \<open>r\<close>; \<open>adeg(r)\<close> raises \<open>ValueError\<close>
  exactly when \<open>weight(r) - 1\<close> is not a multiple of \<open>len(r)\<close> and otherwise returns a
  rational number; neither raises any other exception.
\<close>

theorem C2_degree_preconditions:
  assumes "r \<noteq> []"
  shows "(gdeg r = Inl ValueError \<longleftrightarrow> weight r mod int (length r) \<noteq> 0)
       \<and> (weight r mod int (length r) = 0 \<longrightarrow>
            gdeg r = Inr (kostka (replicate (nat (weight r div int (length r))) (int (length r))) (mu r)))
       \<and> (adeg r None None = Inl ValueError \<longleftrightarrow> (weight r - 1) mod int (length r) \<noteq> 0)
       \<and> ((weight r - 1) mod int (length r) = 0 \<longrightarrow> (\<exists>q. adeg r None None = Inr q))
       \<and> (\<forall>e. gdeg r = Inl e \<or> adeg r None None = Inl e \<longrightarrow> e = ValueError)"
proof -
  have g1: "gdeg r = Inl ValueError \<longleftrightarrow> weight r mod int (length r) \<noteq> 0"
    by (simp add: gdeg_cases [OF assms])
  have g2: "weight r mod int (length r) = 0 \<longrightarrow>
            gdeg r = Inr (kostka (replicate (nat (weight r div int (length r))) (int (length r))) (mu r))"
    by (simp add: gdeg_cases [OF assms])
  have a2: "(weight r - 1) mod int (length r) = 0 \<longrightarrow> (\<exists>q. adeg r None None = Inr q)"
    using adeg_total [OF assms] by blast
  have a1: "adeg r None None = Inl ValueError \<longleftrightarrow> (weight r - 1) mod int (length r) \<noteq> 0"
  proof
    assume "adeg r None None = Inl ValueError"
    with a2 show "(weight r - 1) mod int (length r) \<noteq> 0" by auto
  next
    assume "(weight r - 1) mod int (length r) \<noteq> 0"
    with assms show "adeg r None None = Inl ValueError" by (rule adeg_raises)
  qed
  have e: "\<forall>e. gdeg r = Inl e \<or> adeg r None None = Inl e \<longrightarrow> e = ValueError"
  proof (intro allI impI)
    fix e assume "gdeg r = Inl e \<or> adeg r None None = Inl e"
    then show "e = ValueError"
    proof
      assume "gdeg r = Inl e"
      then show ?thesis by (simp add: gdeg_cases [OF assms] split: if_splits)
    next
      assume ae: "adeg r None None = Inl e"
      show ?thesis
      proof (cases "(weight r - 1) mod int (length r) = 0")
        case True with a2 ae show ?thesis by auto
      next
        case False
        from adeg_raises [OF assms False, of None None] ae show ?thesis by simp
      qed
    qed
  qed
  from g1 g2 a1 a2 e show ?thesis by blast
qed

theorem C2_degree_preconditions_witness:
  "[3, 1 :: int] \<noteq> [] \<and> gdeg [3, 1] = Inl ValueError \<and> (\<exists>q. adeg [3, 1] None None = Inr q)
   \<and> gdeg [4, 0] = Inr (kostka [2, 2] [1, 1, 1, 1])"
proof -
  have w: "weight [3, 1] = 5" "weight [4, 0] = 4" by code_simp+
  have mu: "mu [4, 0] = [1, 1, 1, 1]" by code_simp
  have h: "[3, 1 :: int] \<noteq> []" "[4, 0 :: int] \<noteq> []" by simp_all
  note t = C2_degree_preconditions [OF h(1)]
  note u = C2_degree_preconditions [OF h(2)]
  from t have "gdeg [3, 1] = Inl ValueError" by (simp add: w)
  moreover from t have "\<exists>q. adeg [3, 1] None None = Inr q" by (simp add: w)
  moreover from u have "gdeg [4, 0] = Inr (kostka [2, 2] [1, 1, 1, 1])"
    by (simp add: w mu numeral_2_eq_2)
  ultimately show ?thesis by simp
qed

text \<open>
  Counterexample to claim C3 as stated.  The claim says that both degree functions accept the precomputed
  tables as extra arguments.  \<open>gdeg\<close> is defined with the single parameter \<open>r\<close>: a call
  with the tables raises \<open>TypeError\<close>.
\<close>

theorem C3_counterexample_gdeg_arity:
  "gdeg_call [Vec [1], Triples (Tam 1 1), Rats (harm_list 1)] = Inl TypeError
   \<and> gdeg_call [Vec [1]] = Inr 1"
proof -
  have "gdeg [1] = Inr 1" by code_simp
  then show ?thesis by simp
qed

text \<open>
  Claim C3, as amended.  \<open>adeg\<close> accepts the optional tables \<open>T\<close> and \<open>H\<close>, and for every non-empty vector \<open>r\<close>
  whose weight is congruent to \<open>1\<close> modulo its length \<open>n\<close>, with \<open>m = (weight(r)-1)//n\<close>, the
  call with \<open>T = Tam(m,n)\<close> and \<open>H = harm_list(m+n-1)\<close> returns the value that the call
  without tables returns.
\<close>

theorem C3_adeg_precomputed_tables:
  assumes "r \<noteq> []" "(weight r - 1) mod int (length r) = 0"
  shows "\<exists>q. adeg_call [Vec r] = Inr q
           \<and> adeg_call [Vec r, Triples (Tam ((weight r - 1) div int (length r)) (int (length r))),
                        Rats (harm_list ((weight r - 1) div int (length r) + int (length r) - 1))] = Inr q"
proof -
  from adeg_total [OF assms] obtain q where q: "adeg r None None = Inr q" by blast
  then show ?thesis by (simp add: adeg_tables_supplied)
qed

theorem C3_adeg_precomputed_tables_witness:
  "[3, 1 :: int] \<noteq> [] \<and> (weight [3, 1] - 1) mod int (length [3, 1 :: int]) = 0
   \<and> adeg_call [Vec [3, 1]] = Inr (37 / 12)
   \<and> adeg_call [Vec [3, 1], Triples (Tam 2 2), Rats (harm_list 3)] = Inr (37 / 12)"
proof -
  have w: "weight [3, 1] = 5" by code_simp
  have v: "adeg [3, 1] None None = Inr (37 / 12)" by code_simp
  have h: "[3, 1 :: int] \<noteq> []" by simp
  have c: "(weight [3, 1] - 1) mod int (length [3, 1 :: int]) = 0" by (simp add: w)
  from C3_adeg_precomputed_tables [OF h c] obtain q where
    q: "adeg_call [Vec [3, 1]] = Inr q"
       "adeg_call [Vec [3, 1], Triples (Tam ((weight [3, 1] - 1) div int (length [3, 1 :: int])) (int (length [3, 1 :: int]))),
                        Rats (harm_list ((weight [3, 1] - 1) div int (length [3, 1 :: int]) + int (length [3, 1 :: int]) - 1))] = Inr q"
    by blast
  from q(1) v have "q = 37 / 12" by simp
  with q(2) have "adeg_call [Vec [3, 1], Triples (Tam 2 2), Rats (harm_list 3)] = Inr (37 / 12)"
    by (simp add: w)
  with v c show ?thesis by simp
qed

section \<open>Assembling the arithmetic forms\<close>

lemma forM_invariant_split_aux:
  assumes step: "\<And>pre x post s. xs = pre @ x # post \<Longrightarrow> I pre s
                   \<Longrightarrow> \<exists>s'. f x s = Inr s' \<and> I (pre @ [x]) s'"
  shows "xs = pre @ ys \<Longrightarrow> I pre s \<Longrightarrow> \<exists>s'. forM ys f s = Inr s' \<and> I xs s'"
proof (induction ys arbitrary: pre s)
  case Nil then show ?case by simp
next
  case (Cons y ys)
  from step [OF Cons.prems] obtain s1 where s1: "f y s = Inr s1" "I (pre @ [y]) s1" by blast
  from Cons.prems(1) have "xs = (pre @ [y]) @ ys" by simp
  from Cons.IH [OF this s1(2)] obtain s' where "forM ys f s1 = Inr s'" "I xs s'" by blast
  with s1 show ?case by simp
qed

lemma forM_invariant_split:
  assumes "I [] s"
    and "\<And>pre x post s. xs = pre @ x # post \<Longrightarrow> I pre s \<Longrightarrow> \<exists>s'. f x s = Inr s' \<and> I (pre @ [x]) s'"
  shows "\<exists>s'. forM xs f s = Inr s' \<and> I xs s'"
  using forM_invariant_split_aux [of xs I f "[]" xs s] assms by simp

lemma forM_partial_split_aux:
  assumes step: "\<And>pre x post s s'. xs = pre @ x # post \<Longrightarrow> I pre s \<Longrightarrow> f x s = Inr s'
                   \<Longrightarrow> I (pre @ [x]) s'"
  shows "xs = pre @ ys \<Longrightarrow> I pre s \<Longrightarrow> forM ys f s = Inr s' \<Longrightarrow> I xs s'"
proof (induction ys arbitrary: pre s)
  case Nil then show ?case by simp
next
  case (Cons y ys)
  from Cons.prems(3) obtain s1 where s1: "f y s = Inr s1" and r: "forM ys f s1 = Inr s'"
    by (auto split: sum.splits)
  from step [OF Cons.prems(1,2) s1] have I1: "I (pre @ [y]) s1" .
  from Cons.prems(1) have "xs = (pre @ [y]) @ ys" by simp
  from Cons.IH [OF this I1 r] show ?case .
qed

lemma forM_partial_split:
  assumes "I [] s"
    and "\<And>pre x post s s'. xs = pre @ x # post \<Longrightarrow> I pre s \<Longrightarrow> f x s = Inr s' \<Longrightarrow> I (pre @ [x]) s'"
    and "forM xs f s = Inr s'"
  shows "I xs s'"
  using forM_partial_split_aux [of xs I f "[]" xs s s'] assms by simp

lemma upt_split:
  assumes "[0..<d] = pre @ x # post"
  shows "pre = [0..<x]" "x < d"
proof -
  have "length [0..<d] = length (pre @ x # post)" by (simp only: assms)
  then have len: "length pre < d" by simp
  have "x = [0..<d] ! length pre" unfolding assms by simp
  also have "\<dots> = length pre" using len by simp
  finally have x: "x = length pre" .
  with len show "x < d" by simp
  have "pre = take (length pre) [0..<d]" unfolding assms by simp
  also have "\<dots> = [0..<length pre]" using len by (simp add: take_upt)
  finally show "pre = [0..<x]" using x by simp
qed

lemma mapM_Inr_nth:
  "mapM f xs = Inr ys \<Longrightarrow> length ys = length xs \<and> (\<forall>i<length xs. f (xs ! i) = Inr (ys ! i))"
proof (induction xs arbitrary: ys)
  case Nil then show ?case by simp
next
  case (Cons x xs)
  from Cons.prems obtain y ys' where y: "f x = Inr y" and r: "mapM f xs = Inr ys'" and e: "ys = y # ys'"
    by (auto split: sum.splits)
  from Cons.IH [OF r] have "length ys' = length xs" "\<forall>i<length xs. f (xs ! i) = Inr (ys' ! i)" by blast+
  with y e show ?case by (auto simp: nth_Cons split: nat.splits)
qed

text \<open>The state of the replacement loops: the entries at positions already visited hold
  the new values, the others the old ones.\<close>

lemma replace_body:
  assumes R: "replaced d1 d2 f A done A1" and i: "i < d1" and j: "j < d2" and nd: "\<not> done i j"
  shows "ebind (mat_get A1 i j) (\<lambda>x. ebind (f x) (\<lambda>y. mat_set A1 i j y))
         = ebind (f (A ! i ! j)) (\<lambda>y. Inr (mat_upd A1 i j y))"
proof -
  from R have m: "is_matrix d1 d2 A1" by (simp add: replaced_def)
  from R have "\<forall>a<d1. \<forall>b<d2. if done a b then f (A ! a ! b) = Inr (A1 ! a ! b) else A1 ! a ! b = A ! a ! b"
    by (simp add: replaced_def)
  with i j have "if done i j then f (A ! i ! j) = Inr (A1 ! i ! j) else A1 ! i ! j = A ! i ! j" by blast
  with nd have v: "A1 ! i ! j = A ! i ! j" by (simp only: if_False)
  have g: "mat_get A1 i j = Inr (A1 ! i ! j)"
    by (rule mat_get_ok) (use i j in \<open>simp_all add: is_matrix_rows [OF m] is_matrix_cols [OF m]\<close>)
  have s: "mat_set A1 i j y = Inr (mat_upd A1 i j y)" for y
    by (rule mat_set_ok) (use i j in \<open>simp_all add: is_matrix_rows [OF m] is_matrix_cols [OF m]\<close>)
  show ?thesis by (simp only: g v s ebind_Inr)
qed

lemma replaced_step:
  assumes R: "replaced d1 d2 f A done A1" and i: "i < d1" and j: "j < d2" and nd: "\<not> done i j"
    and y: "f (A ! i ! j) = Inr y"
  shows "replaced d1 d2 f A (\<lambda>a b. done a b \<or> (a = i \<and> b = j)) (mat_upd A1 i j y)"
proof -
  from R have m: "is_matrix d1 d2 A1" by (simp add: replaced_def)
  from R have old: "\<And>a b. a < d1 \<Longrightarrow> b < d2 \<Longrightarrow>
      (if done a b then f (A ! a ! b) = Inr (A1 ! a ! b) else A1 ! a ! b = A ! a ! b)"
    by (simp add: replaced_def)
  have same: "mat_upd A1 i j y ! i ! j = y"
    by (rule mat_upd_nth_same) (use i j in \<open>simp_all add: is_matrix_rows [OF m] is_matrix_cols [OF m]\<close>)
  have "if done a b \<or> (a = i \<and> b = j) then f (A ! a ! b) = Inr (mat_upd A1 i j y ! a ! b)
        else mat_upd A1 i j y ! a ! b = A ! a ! b" if a: "a < d1" and b: "b < d2" for a b
  proof (cases "a = i \<and> b = j")
    case True
    then show ?thesis using same y by simp
  next
    case False
    then have e: "mat_upd A1 i j y ! a ! b = A1 ! a ! b" by (rule mat_upd_nth_other)
    show ?thesis
    proof (cases "done a b")
      case True
      with old [OF a b] have "f (A ! a ! b) = Inr (A1 ! a ! b)" by (simp only: if_True)
      with True show ?thesis by (simp only: e simp_thms if_True)
    next
      case nd: False
      with old [OF a b] have "A1 ! a ! b = A ! a ! b" by (simp only: if_False)
      moreover from nd False have "\<not> (done a b \<or> (a = i \<and> b = j))" by blast
      ultimately show ?thesis by (simp only: e if_False)
    qed
  qed
  then have "\<forall>a<d1. \<forall>b<d2. if done a b \<or> (a = i \<and> b = j) then f (A ! a ! b) = Inr (mat_upd A1 i j y ! a ! b)
        else mat_upd A1 i j y ! a ! b = A ! a ! b" by blast
  moreover have "is_matrix d1 d2 (mat_upd A1 i j y)" using m by (rule is_matrix_upd)
  ultimately show ?thesis unfolding replaced_def by (rule conjI [rotated])
qed

lemma replaced_cong:
  assumes "\<And>a b. a < d1 \<Longrightarrow> b < d2 \<Longrightarrow> done a b = done' a b"
  shows "replaced d1 d2 f A done A' = replaced d1 d2 f A done' A'"
  unfolding replaced_def using assms by simp

lemma row_done_Suc: "(row_done i x a b \<or> (a = i \<and> b = x)) = row_done i (Suc x) a b"
  unfolding row_done_def by (cases "b = x") (simp_all add: less_Suc_eq)

lemma row_done_next: "b < d2 \<Longrightarrow> row_done i d2 a b = row_done (Suc i) 0 a b"
  unfolding row_done_def by (simp add: less_Suc_eq)

lemma replace_row_partial:
  assumes R: "replaced d1 d2 f A (row_done i 0) A1" and i: "i < d1"
    and r: "forM [0..<d2] (\<lambda>j A. ebind (mat_get A i j) (\<lambda>x. ebind (f x) (\<lambda>y. mat_set A i j y))) A1 = Inr A2"
  shows "replaced d1 d2 f A (row_done (Suc i) 0) A2"
proof -
  let ?body = "\<lambda>j A. ebind (mat_get A i j) (\<lambda>x. ebind (f x) (\<lambda>y. mat_set A i j y))"
  let ?I = "\<lambda>pre A'. replaced d1 d2 f A (row_done i (length pre)) A'"
  have "?I [0..<d2] A2"
  proof (rule forM_partial_split [where I = ?I and f = ?body, OF _ _ r])
    show "?I [] A1" using R by simp
  next
    fix pre x post s s'
    assume sp: "[0..<d2] = pre @ x # post" and I: "?I pre s" and b: "?body x s = Inr s'"
    from upt_split [OF sp] have pre: "length pre = x" and x: "x < d2" by simp_all
    from I have I': "replaced d1 d2 f A (row_done i x) s" unfolding pre .
    have nd: "\<not> row_done i x i x" by (simp add: row_done_def)
    from replace_body [OF I' i x nd] b obtain y where y: "f (A ! i ! x) = Inr y" and s': "s' = mat_upd s i x y"
      by (cases "f (A ! i ! x)") auto
    from replaced_step [OF I' i x nd y]
    have "replaced d1 d2 f A (\<lambda>a b. row_done i x a b \<or> (a = i \<and> b = x)) s'" unfolding s' .
    then have "replaced d1 d2 f A (row_done i (Suc x)) s'" unfolding row_done_Suc .
    then show "?I (pre @ [x]) s'" using pre by simp
  qed
  then have "replaced d1 d2 f A (row_done i d2) A2" by simp
  also have "replaced d1 d2 f A (row_done i d2) A2 = replaced d1 d2 f A (row_done (Suc i) 0) A2"
    by (rule replaced_cong) (rule row_done_next)
  finally show ?thesis .
qed

lemma replace_row_total:
  assumes R: "replaced d1 d2 f A (row_done i 0) A1" and i: "i < d1"
    and ok: "\<And>j. j < d2 \<Longrightarrow> \<exists>y. f (A ! i ! j) = Inr y"
  shows "\<exists>A2. forM [0..<d2] (\<lambda>j A. ebind (mat_get A i j) (\<lambda>x. ebind (f x) (\<lambda>y. mat_set A i j y))) A1 = Inr A2
            \<and> replaced d1 d2 f A (row_done (Suc i) 0) A2"
proof -
  let ?body = "\<lambda>j A. ebind (mat_get A i j) (\<lambda>x. ebind (f x) (\<lambda>y. mat_set A i j y))"
  let ?I = "\<lambda>pre A'. replaced d1 d2 f A (row_done i (length pre)) A'"
  have "\<exists>A2. forM [0..<d2] ?body A1 = Inr A2 \<and> ?I [0..<d2] A2"
  proof (rule forM_invariant_split [where I = ?I])
    show "?I [] A1" using R by simp
  next
    fix pre x post s
    assume sp: "[0..<d2] = pre @ x # post" and I: "?I pre s"
    from upt_split [OF sp] have pre: "length pre = x" and x: "x < d2" by simp_all
    from I have I': "replaced d1 d2 f A (row_done i x) s" unfolding pre .
    have nd: "\<not> row_done i x i x" by (simp add: row_done_def)
    from ok [OF x] obtain y where y: "f (A ! i ! x) = Inr y" by blast
    from replace_body [OF I' i x nd] have b: "?body x s = Inr (mat_upd s i x y)" by (simp add: y)
    from replaced_step [OF I' i x nd y]
    have "replaced d1 d2 f A (row_done i (Suc x)) (mat_upd s i x y)" unfolding row_done_Suc .
    then have "?I (pre @ [x]) (mat_upd s i x y)" using pre by simp
    with b show "\<exists>s'. ?body x s = Inr s' \<and> ?I (pre @ [x]) s'" by blast
  qed
  then obtain A2 where r: "forM [0..<d2] ?body A1 = Inr A2" and "replaced d1 d2 f A (row_done i d2) A2"
    by auto
  moreover have "replaced d1 d2 f A (row_done i d2) A2 = replaced d1 d2 f A (row_done (Suc i) 0) A2"
    by (rule replaced_cong) (rule row_done_next)
  ultimately show ?thesis by blast
qed

lemma replaced_initial: "is_matrix d1 d2 A \<Longrightarrow> replaced d1 d2 f A (row_done 0 0) A"
  by (simp add: replaced_def row_done_def)

lemma replaced_final:
  assumes "replaced d1 d2 f A (row_done d1 0) A'"
  shows "is_matrix d1 d2 A'" "\<And>a b. a < d1 \<Longrightarrow> b < d2 \<Longrightarrow> f (A ! a ! b) = Inr (A' ! a ! b)"
  using assms by (simp_all add: replaced_def row_done_def)

lemma replace_loop_partial:
  assumes A: "is_matrix d1 d2 A" and r: "replace_loop d1 d2 f A = Inr A'"
  shows "is_matrix d1 d2 A'" "\<And>a b. a < d1 \<Longrightarrow> b < d2 \<Longrightarrow> f (A ! a ! b) = Inr (A' ! a ! b)"
proof -
  let ?row = "\<lambda>i. forM [0..<d2] (\<lambda>j A. ebind (mat_get A i j) (\<lambda>x. ebind (f x) (\<lambda>y. mat_set A i j y)))"
  let ?I = "\<lambda>pre A'. replaced d1 d2 f A (row_done (length pre) 0) A'"
  from r have r': "forM [0..<d1] ?row A = Inr A'" by (simp add: replace_loop_def)
  have "?I [0..<d1] A'"
  proof (rule forM_partial_split [where I = ?I and f = ?row, OF _ _ r'])
    show "?I [] A" using replaced_initial [OF A] by simp
  next
    fix pre x post s s'
    assume sp: "[0..<d1] = pre @ x # post" and I: "?I pre s" and b: "?row x s = Inr s'"
    from upt_split [OF sp] have pre: "length pre = x" and x: "x < d1" by simp_all
    from I have I': "replaced d1 d2 f A (row_done x 0) s" unfolding pre .
    from replace_row_partial [OF I' x b] show "?I (pre @ [x]) s'" using pre by simp
  qed
  then have fin: "replaced d1 d2 f A (row_done d1 0) A'" by simp
  from replaced_final [OF fin] show "is_matrix d1 d2 A'"
    "\<And>a b. a < d1 \<Longrightarrow> b < d2 \<Longrightarrow> f (A ! a ! b) = Inr (A' ! a ! b)" by blast+
qed

lemma replace_loop_total:
  assumes A: "is_matrix d1 d2 A" and ok: "\<And>a b. a < d1 \<Longrightarrow> b < d2 \<Longrightarrow> \<exists>y. f (A ! a ! b) = Inr y"
  shows "\<exists>A'. replace_loop d1 d2 f A = Inr A'"
proof -
  let ?row = "\<lambda>i. forM [0..<d2] (\<lambda>j A. ebind (mat_get A i j) (\<lambda>x. ebind (f x) (\<lambda>y. mat_set A i j y)))"
  let ?I = "\<lambda>pre A'. replaced d1 d2 f A (row_done (length pre) 0) A'"
  have "\<exists>A'. forM [0..<d1] ?row A = Inr A' \<and> ?I [0..<d1] A'"
  proof (rule forM_invariant_split [where I = ?I])
    show "?I [] A" using replaced_initial [OF A] by simp
  next
    fix pre x post s
    assume sp: "[0..<d1] = pre @ x # post" and I: "?I pre s"
    from upt_split [OF sp] have pre: "length pre = x" and x: "x < d1" by simp_all
    from I have I': "replaced d1 d2 f A (row_done x 0) s" unfolding pre .
    from replace_row_total [OF I' x ok [OF x]] obtain s' where
      "?row x s = Inr s'" "replaced d1 d2 f A (row_done (Suc x) 0) s'" by blast
    then show "\<exists>s'. ?row x s = Inr s' \<and> ?I (pre @ [x]) s'" using pre by auto
  qed
  then show ?thesis by (auto simp: replace_loop_def)
qed

lemma forM_preserves:
  assumes "\<And>x s s'. x \<in> set xs \<Longrightarrow> P s \<Longrightarrow> f x s = Inr s' \<Longrightarrow> P s'"
    and "P s" and "forM xs f s = Inr s'"
  shows "P s'"
proof (rule forM_partial_split [where I = "\<lambda>_. P" and f = f and xs = xs and s = s])
  show "P s" by fact
  show "forM xs f s = Inr s'" by fact
next
  fix pre x post s s'
  assume "xs = pre @ x # post" "P s" "f x s = Inr s'"
  then show "P s'" using assms(1) [of x s s'] by simp
qed

lemma weight_map2_add:
  assumes "length a = length b"
  shows "weight (map2 (+) a b) = weight a + weight b"
  using assms by (simp add: weight_sum sum.distrib distrib_right)

lemma weight_smul: "weight (smul c v) = c * weight v"
  by (simp add: weight_sum smul_def sum_distrib_left mult.assoc)

lemma weight_e1: "weight (1 # replicate k 0) = 1"
proof -
  have "weight (1 # replicate k 0) = (\<Sum>i<Suc k. (1 # replicate k 0) ! i * int (Suc i))"
    by (simp add: weight_sum)
  also have "\<dots> = 1 + (\<Sum>i<k. (1 # replicate k 0) ! Suc i * int (Suc (Suc i)))"
    by (simp only: sum.lessThan_Suc_shift) simp
  also have "(\<Sum>i<k. (1 # replicate k 0) ! Suc i * int (Suc (Suc i))) = 0"
    by (rule sum.neutral) simp
  finally show ?thesis by simp
qed

lemma pooled_length_weight:
  assumes "1 \<le> n" "length v = nat n" "length w = nat n"
  shows "length (pooled v w c n) = nat n" "weight (pooled v w c n) = weight v + weight w + c"
proof -
  have le: "length (smul c (1 # replicate (nat (n - 1)) 0)) = nat n"
    using assms(1) by (simp add: smul_def)
  have lvw: "length (map2 (+) v w) = nat n" using assms by simp
  show "length (pooled v w c n) = nat n" unfolding pooled_def using lvw le by simp
  have "weight (pooled v w c n) = weight (map2 (+) v w) + weight (smul c (1 # replicate (nat (n - 1)) 0))"
    unfolding pooled_def by (rule weight_map2_add) (simp only: lvw le)
  also have "weight (map2 (+) v w) = weight v + weight w"
    by (rule weight_map2_add) (simp only: assms)
  also have "weight (smul c (1 # replicate (nat (n - 1)) 0)) = c"
    by (simp only: weight_smul weight_e1 mult.right_neutral)
  finally show "weight (pooled v w c n) = weight v + weight w + c" .
qed

lemma vadd_Inr: "vadd a b = Inr z \<Longrightarrow> length a = length b \<and> z = map2 (+) a b"
  by (simp add: vadd_def split: if_splits)

lemma Varith_self_pool:
  assumes "Varith_self m n e l p i j (Z0, Z1, M) = Inr (Z0', Z1', M')"
  shows "Z1' = Z1 \<and> (\<exists>a z. vadd (l ! i) (l ! j) = Inr a \<and> vadd a (smul (n * m + 1 - 2 * p) e) = Inr z
                        \<and> set Z0' = insert z (set Z0))"
  using assms
  by (auto simp: Varith_self_def ebind_def Let_def split: sum.splits if_splits)

lemma Varith_cross_pool:
  assumes "Varith_cross m n e l l2 p i j (Z0, Z1, M) = Inr (Z0', Z1', M')"
  shows "Z0' = Z0 \<and> (\<exists>a z. vadd (l ! i) (l2 ! j) = Inr a \<and> vadd a (smul (n * m + 1 - 2 * p) e) = Inr z
                        \<and> set Z1' = insert z (set Z1))"
  using assms
  by (auto simp: Varith_cross_def ebind_def Let_def split: sum.splits if_splits)

lemma basis_grade_weight:
  assumes "1 \<le> n" "0 \<le> m" "int p \<le> n * m" "i < length (B m n ! p)"
  shows "weight (B m n ! p ! i) = int p"
proof -
  have "B m n ! p ! i \<in> set (B m n ! nat (int p))" using assms(4) by simp
  also have "\<dots> = {v \<in> basis_vectors m n. weight v = int p}"
    using B_grades(2) [OF assms(1,2), of "int p"] assms(3) by simp
  finally show ?thesis by simp
qed

lemma pool_ok_self:
  assumes n: "1 \<le> n" and m: "1 \<le> m" and ok: "pool_ok m n s"
    and p0: "0 < p" and p: "int p \<le> (n * m + 1) div 2"
    and i: "i < length (B m n ! p)" and j: "j < length (B m n ! p)"
    and r: "Varith_self m n (1 # replicate (nat (n - 1)) 0) (B m n ! p) (int p) i j s = Inr s'"
  shows "pool_ok m n s'"
proof -
  obtain Z0 Z1 M where s: "s = (Z0, Z1, M)" by (cases s)
  obtain Z0' Z1' M' where s': "s' = (Z0', Z1', M')" by (cases s')
  from n m have nm: "1 \<le> n * m" by (simp add: mult_le_cancel_left1 order.trans [OF _ mult_left_mono [of 1 m n]])
  from m have m0: "0 \<le> m" by simp
  from p half_succ_le [OF nm] have pnm: "int p \<le> n * m" by linarith
  let ?l = "B m n ! p"
  have li: "length (?l ! i) = nat n" "weight (?l ! i) = int p"
    using basis_grade_length [OF n m0 pnm i] basis_grade_weight [OF n m0 pnm i] by simp_all
  have lj: "length (?l ! j) = nat n" "weight (?l ! j) = int p"
    using basis_grade_length [OF n m0 pnm j] basis_grade_weight [OF n m0 pnm j] by simp_all
  from Varith_self_pool [OF r [unfolded s s']] obtain a z where
    Z1: "Z1' = Z1" and a: "vadd (?l ! i) (?l ! j) = Inr a"
    and z: "vadd a (smul (n * m + 1 - 2 * int p) (1 # replicate (nat (n - 1)) 0)) = Inr z"
    and Z0: "set Z0' = insert z (set Z0)" by blast
  from vadd_Inr [OF a] vadd_Inr [OF z] have "z = pooled (?l ! i) (?l ! j) (n * m + 1 - 2 * int p) n"
    by (simp add: pooled_def)
  with pooled_length_weight [OF n li(1) lj(1), of "n * m + 1 - 2 * int p"] li lj
  have "length z = nat n" "weight z = n * m + 1" by simp_all
  with ok show ?thesis unfolding s s' pool_ok_def prod.case Z0 Z1 by simp
qed

lemma pool_ok_cross:
  assumes n: "1 \<le> n" and m: "1 \<le> m" and ok: "pool_ok m n s"
    and p0: "0 < p" and p: "int p \<le> (n * m + 1) div 2"
    and i: "i < length (B m n ! p)" and j: "j < length (B m n ! (p - 1))"
    and r: "Varith_cross m n (1 # replicate (nat (n - 1)) 0) (B m n ! p) (B m n ! (p - 1)) (int p) i j s = Inr s'"
  shows "pool_ok m n s'"
proof -
  obtain Z0 Z1 M where s: "s = (Z0, Z1, M)" by (cases s)
  obtain Z0' Z1' M' where s': "s' = (Z0', Z1', M')" by (cases s')
  from n m have nm: "1 \<le> n * m" by (simp add: mult_le_cancel_left1 order.trans [OF _ mult_left_mono [of 1 m n]])
  from m have m0: "0 \<le> m" by simp
  from p half_succ_le [OF nm] have pnm: "int p \<le> n * m" by linarith
  then have pnm2: "int (p - 1) \<le> n * m" by linarith
  let ?l = "B m n ! p" and ?l2 = "B m n ! (p - 1)"
  have li: "length (?l ! i) = nat n" "weight (?l ! i) = int p"
    using basis_grade_length [OF n m0 pnm i] basis_grade_weight [OF n m0 pnm i] by simp_all
  have lj: "length (?l2 ! j) = nat n" "weight (?l2 ! j) = int (p - 1)"
    using basis_grade_length [OF n m0 pnm2 j] basis_grade_weight [OF n m0 pnm2 j] by simp_all
  from Varith_cross_pool [OF r [unfolded s s']] obtain a z where
    Z0: "Z0' = Z0" and a: "vadd (?l ! i) (?l2 ! j) = Inr a"
    and z: "vadd a (smul (n * m + 1 - 2 * int p) (1 # replicate (nat (n - 1)) 0)) = Inr z"
    and Z1: "set Z1' = insert z (set Z1)" by blast
  from vadd_Inr [OF a] vadd_Inr [OF z] have "z = pooled (?l ! i) (?l2 ! j) (n * m + 1 - 2 * int p) n"
    by (simp add: pooled_def)
  with pooled_length_weight [OF n li(1) lj(1), of "n * m + 1 - 2 * int p"] li lj p0
  have "length z = nat n" "weight z = n * m" by simp_all
  with ok show ?thesis unfolding s s' pool_ok_def prod.case Z0 Z1 by simp
qed

lemma list_get_Inr: "list_get xs k = Inr x \<Longrightarrow> 0 \<le> k \<Longrightarrow> x = xs ! nat k"
  by (auto simp: list_get_def Let_def split: if_splits)

lemma pool_ok_grade:
  assumes n: "1 \<le> n" and m: "1 \<le> m" and ok: "pool_ok m n s"
    and p0: "0 < p" and p: "int p \<le> (n * m + 1) div 2"
    and r: "Varith_grade m n (1 # replicate (nat (n - 1)) 0) (B m n) (int p) s = Inr s'"
  shows "pool_ok m n s'"
proof -
  let ?e = "1 # replicate (nat (n - 1)) (0::int)"
  from r obtain l s1 l2 where l: "list_get (B m n) (int p) = Inr l"
    and r1: "forM [0..<length l] (\<lambda>i. forM [i..<length l] (\<lambda>j. Varith_self m n ?e l (int p) i j)) s = Inr s1"
    and l2: "list_get (B m n) (int p - 1) = Inr l2"
    and r2: "forM [0..<length l] (\<lambda>i. forM [0..<length l2] (\<lambda>j. Varith_cross m n ?e l l2 (int p) i j)) s1 = Inr s'"
    unfolding Varith_grade_def by (auto simp: ebind_def split: sum.splits)
  from list_get_Inr [OF l] have le: "l = B m n ! p" by simp
  from list_get_Inr [OF l2] p0 have l2e: "l2 = B m n ! (p - 1)" by (simp add: nat_diff_distrib')
  have ok1: "pool_ok m n s1"
  proof (rule forM_preserves [where P = "pool_ok m n", OF _ ok r1])
    fix i t t' assume i: "i \<in> set [0..<length l]" and t: "pool_ok m n t"
      and ri: "forM [i..<length l] (\<lambda>j. Varith_self m n ?e l (int p) i j) t = Inr t'"
    show "pool_ok m n t'"
    proof (rule forM_preserves [where P = "pool_ok m n", OF _ t ri])
      fix j u u' assume j: "j \<in> set [i..<length l]" and u: "pool_ok m n u"
        and rj: "Varith_self m n ?e l (int p) i j u = Inr u'"
      from i j have "i < length (B m n ! p)" "j < length (B m n ! p)" unfolding le by simp_all
      from pool_ok_self [OF n m u p0 p this rj [unfolded le]] show "pool_ok m n u'" .
    qed
  qed
  show ?thesis
  proof (rule forM_preserves [where P = "pool_ok m n", OF _ ok1 r2])
    fix i t t' assume i: "i \<in> set [0..<length l]" and t: "pool_ok m n t"
      and ri: "forM [0..<length l2] (\<lambda>j. Varith_cross m n ?e l l2 (int p) i j) t = Inr t'"
    show "pool_ok m n t'"
    proof (rule forM_preserves [where P = "pool_ok m n", OF _ t ri])
      fix j u u' assume j: "j \<in> set [0..<length l2]" and u: "pool_ok m n u"
        and rj: "Varith_cross m n ?e l l2 (int p) i j u = Inr u'"
      from i j have "i < length (B m n ! p)" "j < length (B m n ! (p - 1))" unfolding le l2e by simp_all
      from pool_ok_cross [OF n m u p0 p this rj [unfolded le l2e]] show "pool_ok m n u'" .
    qed
  qed
qed

lemma Varith_pool_ok:
  assumes n: "1 \<le> n" and m: "1 \<le> m" and r: "Varith m n = Inr (Tuple s)"
  shows "pool_ok m n s"
proof -
  let ?e = "1 # replicate (nat (n - 1)) (0::int)"
  let ?K = "(n * m + 1) div 2"
  from r n m obtain Ms where
    run: "forM [1..?K] (Varith_grade m n ?e (B m n)) ([smul (n * m + 1) ?e], [], ([[0]], []) # Ms) = Inr s"
    unfolding Varith_def Let_def by (auto simp: ebind_def split: sum.splits if_splits)
  have "length (smul (n * m + 1) ?e) = nat n" using n by (simp add: smul_def)
  moreover have "weight (smul (n * m + 1) ?e) = n * m + 1"
    by (simp only: weight_smul weight_e1 mult.right_neutral)
  ultimately have ok0: "pool_ok m n ([smul (n * m + 1) ?e], [], ([[0]], []) # Ms)"
    unfolding pool_ok_def prod.case by simp
  show ?thesis
  proof (rule forM_preserves [where P = "pool_ok m n", OF _ ok0 run])
    fix x t t' assume x: "x \<in> set [1..?K]" and t: "pool_ok m n t"
      and rx: "Varith_grade m n ?e (B m n) x t = Inr t'"
    from x have x0: "0 < nat x" and xK: "int (nat x) \<le> ?K" and xx: "int (nat x) = x" by auto
    from rx have rx': "Varith_grade m n ?e (B m n) (int (nat x)) t = Inr t'" by (simp only: xx)
    from pool_ok_grade [OF n m t x0 xK rx'] show "pool_ok m n t'" .
  qed
qed

lemma is_matrix_map: "is_matrix r c A \<Longrightarrow> is_matrix r c (map (map g) A)"
  by (simp add: is_matrix_def)

lemma mat_eqI:
  assumes X: "is_matrix r c X" and Y: "is_matrix r c Y"
    and e: "\<And>a b. a < r \<Longrightarrow> b < c \<Longrightarrow> X ! a ! b = Y ! a ! b"
  shows "X = Y"
proof (rule nth_equalityI)
  show "length X = length Y" using is_matrix_rows [OF X] is_matrix_rows [OF Y] by simp
next
  fix a assume "a < length X"
  then have a: "a < r" using is_matrix_rows [OF X] by simp
  show "X ! a = Y ! a"
  proof (rule nth_equalityI)
    show "length (X ! a) = length (Y ! a)"
      using is_matrix_cols [OF X a] is_matrix_cols [OF Y a] by simp
  next
    fix b assume "b < length (X ! a)"
    then have "b < c" using is_matrix_cols [OF X a] by simp
    with a show "X ! a ! b = Y ! a ! b" by (rule e)
  qed
qed

lemma map_map_nth:
  "is_matrix r c A \<Longrightarrow> a < r \<Longrightarrow> b < c \<Longrightarrow> map (map g) A ! a ! b = g (A ! a ! b)"
  by (simp add: is_matrix_def)

lemma replace_loop_map_partial:
  assumes A: "is_matrix d1 d2 A" and r: "replace_loop d1 d2 f (map (map c) A) = Inr A'"
    and v: "\<And>a b y. a < d1 \<Longrightarrow> b < d2 \<Longrightarrow> f (c (A ! a ! b)) = Inr y \<Longrightarrow> y = g (A ! a ! b)"
  shows "A' = map (map g) A"
proof (rule mat_eqI)
  have Ac: "is_matrix d1 d2 (map (map c) A)" using A by (rule is_matrix_map)
  note p = replace_loop_partial [OF Ac r]
  show "is_matrix d1 d2 A'" by (rule p(1))
  show "is_matrix d1 d2 (map (map g) A)" using A by (rule is_matrix_map)
  fix a b assume a: "a < d1" and b: "b < d2"
  from p(2) [OF a b] have "f (c (A ! a ! b)) = Inr (A' ! a ! b)"
    by (simp only: map_map_nth [OF A a b])
  from v [OF a b this] show "A' ! a ! b = map (map g) A ! a ! b"
    by (simp only: map_map_nth [OF A a b])
qed

lemma replace_loop_map_total:
  assumes A: "is_matrix d1 d2 A"
    and v: "\<And>a b. a < d1 \<Longrightarrow> b < d2 \<Longrightarrow> f (c (A ! a ! b)) = Inr (g (A ! a ! b))"
  shows "replace_loop d1 d2 f (map (map c) A) = Inr (map (map g) A)"
proof -
  have Ac: "is_matrix d1 d2 (map (map c) A)" using A by (rule is_matrix_map)
  have "\<exists>A'. replace_loop d1 d2 f (map (map c) A) = Inr A'"
  proof (rule replace_loop_total [OF Ac])
    fix a b assume a: "a < d1" and b: "b < d2"
    from v [OF a b] show "\<exists>y. f (map (map c) A ! a ! b) = Inr y"
      by (simp only: map_map_nth [OF A a b]) blast
  qed
  then obtain A' where r: "replace_loop d1 d2 f (map (map c) A) = Inr A'" by blast
  have "A' = map (map g) A"
  proof (rule replace_loop_map_partial [OF A r])
    fix a b y assume "a < d1" "b < d2" "f (c (A ! a ! b)) = Inr y"
    with v show "y = g (A ! a ! b)" by simp
  qed
  with r show ?thesis by simp
qed

text \<open>Reading a list at a position that arrives as a rational number.\<close>

lemma index_sound:
  fixes as_index :: "rat \<Rightarrow> error + int"
  assumes sound: "\<And>q k. as_index q = Inr k \<Longrightarrow> q = of_int k"
    and r: "ebind (as_index (of_int k)) (\<lambda>k'. ebind (list_get D k') (\<lambda>g. Inr (h g))) = Inr y"
    and k: "0 \<le> k" "nat k < length D"
  shows "y = h (D ! nat k)"
proof -
  from r obtain k' where a: "as_index (of_int k) = Inr k'"
    and l: "ebind (list_get D k') (\<lambda>g. Inr (h g)) = Inr y"
    by (cases "as_index (of_int k)") auto
  from sound [OF a] have "k' = k" by simp
  with l k show ?thesis by (simp add: list_get_ok)
qed

lemma index_complete:
  fixes as_index :: "rat \<Rightarrow> error + int"
  assumes complete: "\<And>k. as_index (of_int k) = Inr k" and k: "0 \<le> k" "nat k < length D"
  shows "ebind (as_index (of_int k)) (\<lambda>k'. ebind (list_get D k') (\<lambda>g. Inr (h g))) = Inr (h (D ! nat k))"
  using k by (simp add: complete list_get_ok)

lemma ebind_list_get_eta: "ebind (as_index x) (list_get D) = ebind (as_index x) (\<lambda>k'. ebind (list_get D k') (\<lambda>g. Inr g))"
proof -
  have "list_get D = (\<lambda>k'. ebind (list_get D k') (\<lambda>g. Inr g))"
    by (rule ext) (simp add: ebind_def split: sum.splits)
  then show ?thesis by simp
qed

lemma ncols_is_matrix: "is_matrix r c A \<Longrightarrow> 0 < r \<Longrightarrow> ncols A = c"
  by (cases A) (auto simp: is_matrix_def ncols_def)

lemma nrows_is_matrix: "is_matrix r c A \<Longrightarrow> nrows A = r"
  by (simp add: is_matrix_def nrows_def)

lemma names_pool_entry_valid: "names_pool_entry Z k z \<Longrightarrow> 0 \<le> k \<and> nat k < length Z"
  by (simp add: names_pool_entry_def)

lemma Varith_facts:
  assumes n: "1 \<le> n" and m: "1 \<le> m" and r: "Varith m n = Inr (Tuple (Z0, Z1, M))"
  shows "Varith_inv m n (Varith_done0 m n) (Varith_done1 m n) (Z0, Z1, M)" "pool_ok m n (Z0, Z1, M)"
proof -
  from Varith_returns_pos [OF n m] r
  show "Varith_inv m n (Varith_done0 m n) (Varith_done1 m n) (Z0, Z1, M)" by auto
  from Varith_pool_ok [OF n m r] show "pool_ok m n (Z0, Z1, M)" .
qed

lemma adeg_pooled:
  assumes n: "1 \<le> n" and l: "length v = nat n" and w: "weight v = n * m + 1"
  shows "adeg v None None = Inr (adeg_val v)"
    and "adeg v (Some (Tam m n)) (Some (harm_list (m + n - 1))) = Inr (adeg_val v)"
proof -
  from n l have ne: "v \<noteq> []" and il: "int (length v) = n" by auto
  from n have dv: "(n * m) div n = m" and md: "(n * m) mod n = 0" by simp_all
  have c: "(weight v - 1) mod int (length v) = 0" unfolding il w using md by simp
  from adeg_total [OF ne c] obtain q where q: "adeg v None None = Inr q" by blast
  then show a: "adeg v None None = Inr (adeg_val v)" by (simp add: adeg_val_def)
  have "(weight v - 1) div int (length v) = m" unfolding il w using dv by simp
  with adeg_tables_supplied [of v] il
  have "adeg v (Some (Tam m n)) (Some (harm_list (m + n - 1))) = adeg v None None" by simp
  with a show "adeg v (Some (Tam m n)) (Some (harm_list (m + n - 1))) = Inr (adeg_val v)" by simp
qed

lemma gdeg_pooled:
  assumes n: "1 \<le> n" and l: "length v = nat n" and w: "weight v = n * m"
  shows "gdeg v = Inr (gdeg_val v)"
proof -
  from n l have ne: "v \<noteq> []" and il: "int (length v) = n" by auto
  have "weight v mod int (length v) = 0" unfolding il w using n by simp
  with gdeg_cases [OF ne] show ?thesis by (simp add: gdeg_val_def)
qed

lemma degree_lists:
  assumes n: "1 \<le> n" and ok: "pool_ok m n (Z0, Z1, M)"
  shows "mapM (\<lambda>v. adeg v (Some (Tam m n)) (Some (harm_list (m + n - 1)))) Z0 = Inr (map adeg_val Z0)"
    and "mapM gdeg Z1 = Inr (map gdeg_val Z1)"
proof -
  from ok have z0: "\<And>v. v \<in> set Z0 \<Longrightarrow> length v = nat n \<and> weight v = n * m + 1"
    and z1: "\<And>v. v \<in> set Z1 \<Longrightarrow> length v = nat n \<and> weight v = n * m"
    by (simp_all add: pool_ok_def)
  show "mapM (\<lambda>v. adeg v (Some (Tam m n)) (Some (harm_list (m + n - 1)))) Z0 = Inr (map adeg_val Z0)"
  proof (rule mapM_all_ok)
    fix v assume "v \<in> set Z0"
    from z0 [OF this] show "adeg v (Some (Tam m n)) (Some (harm_list (m + n - 1))) = Inr (adeg_val v)"
      using adeg_pooled(2) [OF n] by blast
  qed
  show "mapM gdeg Z1 = Inr (map gdeg_val Z1)"
  proof (rule mapM_all_ok)
    fix v assume "v \<in> set Z1"
    from z1 [OF this] show "gdeg v = Inr (gdeg_val v)" using gdeg_pooled [OF n] by blast
  qed
qed

text \<open>What one grade of aHodge has to work with.\<close>

lemma grade_tables:
  assumes n: "1 \<le> n" and m: "1 \<le> m"
    and inv: "Varith_inv m n (Varith_done0 m n) (Varith_done1 m n) (Z0, Z1, M)"
    and p0: "0 < p" and p: "int p \<le> (n * m + 1) div 2"
  shows "list_get M (int p) = Inr (M ! p)"
    and "is_matrix (length (B m n ! p)) (length (B m n ! p)) (fst (M ! p))"
    and "is_matrix (length (B m n ! p)) (length (B m n ! (p - 1))) (snd (M ! p))"
    and "0 < length (B m n ! p)" and "0 < length (B m n ! (p - 1))"
    and "\<And>a b. a < length (B m n ! p) \<Longrightarrow> b < length (B m n ! p) \<Longrightarrow>
           0 \<le> fst (M ! p) ! a ! b \<and> nat (fst (M ! p) ! a ! b) < length Z0"
    and "\<And>a b. a < length (B m n ! p) \<Longrightarrow> b < length (B m n ! (p - 1)) \<Longrightarrow>
           0 \<le> snd (M ! p) ! a ! b \<and> nat (snd (M ! p) ! a ! b) < length Z1"
proof -
  note sh = Varith_inv_shape [OF inv]
  from n m have nm: "1 \<le> n * m" by (simp add: mult_le_cancel_left1 order.trans [OF _ mult_left_mono [of 1 m n]])
  from m have m0: "0 \<le> m" by simp
  from p half_succ_le [OF nm] have pnm: "int p \<le> n * m" by linarith
  from p sh(3) have "p < length M" by linarith
  then show "list_get M (int p) = Inr (M ! p)" by (simp add: list_get_ok)
  from sh(6) [OF p0 p]
  show "is_matrix (length (B m n ! p)) (length (B m n ! p)) (fst (M ! p))"
    and "is_matrix (length (B m n ! p)) (length (B m n ! (p - 1))) (snd (M ! p))" by blast+
  from B_grades(3) [OF n m0, of "int p"] pnm show "0 < length (B m n ! p)" by simp
  from B_grades(3) [OF n m0, of "int (p - 1)"] pnm show "0 < length (B m n ! (p - 1))" by simp
  show "0 \<le> fst (M ! p) ! a ! b \<and> nat (fst (M ! p) ! a ! b) < length Z0"
    if "a < length (B m n ! p)" "b < length (B m n ! p)" for a b
    using Varith_inv_self_entry(2) [OF inv p0 p that] by (rule names_pool_entry_valid)
  show "0 \<le> snd (M ! p) ! a ! b \<and> nat (snd (M ! p) ! a ! b) < length Z1"
    if "a < length (B m n ! p)" "b < length (B m n ! (p - 1))" for a b
    using Varith_inv_cross_entry [OF inv p0 p that] by (rule names_pool_entry_valid)
qed

lemma aHodge_grade_unfold:
  assumes n: "1 \<le> n" and m: "1 \<le> m"
    and inv: "Varith_inv m n (Varith_done0 m n) (Varith_done1 m n) (Z0, Z1, M)"
    and p0: "0 < p" and p: "int p \<le> (n * m + 1) div 2"
  shows "aHodge_grade as_index D1 D2 M (int p) =
     ebind (replace_loop (length (B m n ! p)) (length (B m n ! p))
              (\<lambda>x. ebind (as_index x) (\<lambda>k'. ebind (list_get D1 k') (\<lambda>g. Inr g)))
              (map (map of_int) (fst (M ! p)))) (\<lambda>A.
     ebind (replace_loop (length (B m n ! p)) (length (B m n ! (p - 1)))
              (\<lambda>x. ebind (as_index x) (\<lambda>k. ebind (list_get D2 k) (\<lambda>g. Inr (of_int g / 2))))
              (map (map of_int) (snd (M ! p)))) (\<lambda>Bm.
     ebind (block_matrix A Bm) (\<lambda>H. Inr (mat_scale ((- 1) ^ p) H))))"
proof -
  note t = grade_tables [OF n m inv p0 p]
  have r: "nrows (fst (M ! p)) = length (B m n ! p)" "nrows (snd (M ! p)) = length (B m n ! p)"
    using nrows_is_matrix [OF t(2)] nrows_is_matrix [OF t(3)] by simp_all
  have c: "ncols (snd (M ! p)) = length (B m n ! (p - 1))"
    using t(3) t(4) by (rule ncols_is_matrix)
  show ?thesis
    unfolding aHodge_grade_def Let_def t(1) ebind_Inr r c ebind_list_get_eta by simp
qed

lemma block_matrix_ok:
  "is_matrix d d A \<Longrightarrow> is_matrix d d2 Bm \<Longrightarrow> \<exists>H. block_matrix A Bm = Inr H"
  by (simp add: block_matrix_def nrows_def is_matrix_def)

lemma aHodge_grade_partial:
  fixes as_index :: "rat \<Rightarrow> error + int"
  assumes sound: "\<And>q k. as_index q = Inr k \<Longrightarrow> q = of_int k"
    and n: "1 \<le> n" and m: "1 \<le> m"
    and inv: "Varith_inv m n (Varith_done0 m n) (Varith_done1 m n) (Z0, Z1, M)"
    and p0: "0 < p" and p: "int p \<le> (n * m + 1) div 2"
    and r: "aHodge_grade as_index (map adeg_val Z0) (map gdeg_val Z1) M (int p) = Inr H"
  shows "\<exists>Hb. block_matrix (arith_block Z0 (fst (M ! p))) (geom_block Z1 (snd (M ! p))) = Inr Hb
              \<and> H = mat_scale ((- 1) ^ p) Hb"
proof -
  note t = grade_tables [OF n m inv p0 p]
  let ?d = "length (B m n ! p)" and ?d2 = "length (B m n ! (p - 1))"
  let ?fA = "\<lambda>x. ebind (as_index x) (\<lambda>k'. ebind (list_get (map adeg_val Z0) k') (\<lambda>g. Inr g))"
  let ?fB = "\<lambda>x. ebind (as_index x) (\<lambda>k. ebind (list_get (map gdeg_val Z1) k) (\<lambda>g. Inr (rat_of_int g / 2)))"
  from r [unfolded aHodge_grade_unfold [OF n m inv p0 p]]
  obtain A' B' Hb where
    rA: "replace_loop ?d ?d ?fA (map (map of_int) (fst (M ! p))) = Inr A'"
    and rB: "replace_loop ?d ?d2 ?fB (map (map of_int) (snd (M ! p))) = Inr B'"
    and bm: "block_matrix A' B' = Inr Hb" and H: "H = mat_scale ((- 1) ^ p) Hb"
    by (auto simp: ebind_def split: sum.splits)
  have A': "A' = arith_block Z0 (fst (M ! p))"
    unfolding arith_block_def
  proof (rule replace_loop_map_partial [OF t(2) rA])
    fix a b y assume a: "a < ?d" and b: "b < ?d" and y: "?fA (rat_of_int (fst (M ! p) ! a ! b)) = Inr y"
    from t(6) [OF a b] have k: "0 \<le> fst (M ! p) ! a ! b" "nat (fst (M ! p) ! a ! b) < length (map adeg_val Z0)"
      by simp_all
    from index_sound [where h = "\<lambda>g. g" and as_index = as_index, OF sound y k] k(2)
    show "y = adeg_val (Z0 ! nat (fst (M ! p) ! a ! b))" by simp
  qed
  have B': "B' = geom_block Z1 (snd (M ! p))"
    unfolding geom_block_def
  proof (rule replace_loop_map_partial [OF t(3) rB])
    fix a b y assume a: "a < ?d" and b: "b < ?d2" and y: "?fB (rat_of_int (snd (M ! p) ! a ! b)) = Inr y"
    from t(7) [OF a b] have k: "0 \<le> snd (M ! p) ! a ! b" "nat (snd (M ! p) ! a ! b) < length (map gdeg_val Z1)"
      by simp_all
    from index_sound [where h = "\<lambda>g. rat_of_int g / 2" and as_index = as_index, OF sound y k] k(2)
    show "y = rat_of_int (gdeg_val (Z1 ! nat (snd (M ! p) ! a ! b))) / 2" by simp
  qed
  from bm H show ?thesis unfolding A' B' by blast
qed

lemma aHodge_grade_total:
  fixes as_index :: "rat \<Rightarrow> error + int"
  assumes complete: "\<And>k. as_index (of_int k) = Inr k"
    and n: "1 \<le> n" and m: "1 \<le> m"
    and inv: "Varith_inv m n (Varith_done0 m n) (Varith_done1 m n) (Z0, Z1, M)"
    and p0: "0 < p" and p: "int p \<le> (n * m + 1) div 2"
  shows "\<exists>H. aHodge_grade as_index (map adeg_val Z0) (map gdeg_val Z1) M (int p) = Inr H"
proof -
  note t = grade_tables [OF n m inv p0 p]
  let ?d = "length (B m n ! p)" and ?d2 = "length (B m n ! (p - 1))"
  let ?fA = "\<lambda>x. ebind (as_index x) (\<lambda>k'. ebind (list_get (map adeg_val Z0) k') (\<lambda>g. Inr g))"
  let ?fB = "\<lambda>x. ebind (as_index x) (\<lambda>k. ebind (list_get (map gdeg_val Z1) k) (\<lambda>g. Inr (rat_of_int g / 2)))"
  have rA: "replace_loop ?d ?d ?fA (map (map of_int) (fst (M ! p)))
        = Inr (map (map (\<lambda>k. map adeg_val Z0 ! nat k)) (fst (M ! p)))"
  proof (rule replace_loop_map_total [OF t(2)])
    fix a b assume a: "a < ?d" and b: "b < ?d"
    from t(6) [OF a b] have k: "0 \<le> fst (M ! p) ! a ! b" "nat (fst (M ! p) ! a ! b) < length (map adeg_val Z0)"
      by simp_all
    from index_complete [where h = "\<lambda>g. g" and as_index = as_index, OF complete k]
    show "?fA (rat_of_int (fst (M ! p) ! a ! b)) = Inr (map adeg_val Z0 ! nat (fst (M ! p) ! a ! b))" .
  qed
  have rB: "replace_loop ?d ?d2 ?fB (map (map of_int) (snd (M ! p)))
        = Inr (map (map (\<lambda>k. rat_of_int (map gdeg_val Z1 ! nat k) / 2)) (snd (M ! p)))"
  proof (rule replace_loop_map_total [OF t(3)])
    fix a b assume a: "a < ?d" and b: "b < ?d2"
    from t(7) [OF a b] have k: "0 \<le> snd (M ! p) ! a ! b" "nat (snd (M ! p) ! a ! b) < length (map gdeg_val Z1)"
      by simp_all
    from index_complete [where h = "\<lambda>g. rat_of_int g / 2" and as_index = as_index, OF complete k]
    show "?fB (rat_of_int (snd (M ! p) ! a ! b)) = Inr (rat_of_int (map gdeg_val Z1 ! nat (snd (M ! p) ! a ! b)) / 2)" .
  qed
  have "\<exists>H. block_matrix (map (map (\<lambda>k. map adeg_val Z0 ! nat k)) (fst (M ! p)))
                (map (map (\<lambda>k. rat_of_int (map gdeg_val Z1 ! nat k) / 2)) (snd (M ! p))) = Inr H"
    by (rule block_matrix_ok) (rule is_matrix_map, rule t(2), rule is_matrix_map, rule t(3))
  then obtain Hb where "block_matrix (map (map (\<lambda>k. map adeg_val Z0 ! nat k)) (fst (M ! p)))
                (map (map (\<lambda>k. rat_of_int (map gdeg_val Z1 ! nat k) / 2)) (snd (M ! p))) = Inr Hb" by blast
  then show ?thesis
    unfolding aHodge_grade_unfold [OF n m inv p0 p] by (simp only: rA rB ebind_Inr) blast
qed

lemma aHodge_unfold:
  assumes n: "1 \<le> n" and m: "1 \<le> m" and r: "Varith m n = Inr (Tuple (Z0, Z1, M))"
  shows "aHodge as_index m n =
     ebind (as_index (of_int 0)) (\<lambda>k.
     ebind (list_get (map adeg_val Z0) k) (\<lambda>y.
     ebind (mapM (aHodge_grade as_index (map adeg_val Z0) (map gdeg_val Z1) M) [1..(n * m + 1) div 2]) (\<lambda>Ms.
       Inr ([[y]] # Ms))))"
proof -
  note f = Varith_facts [OF n m r]
  note sh = Varith_inv_shape [OF f(1)]
  note d = degree_lists [OF n f(2)]
  from n m have K0: "0 \<le> (n * m + 1) div 2" by simp
  have l: "int (length M) - 1 = (n * m + 1) div 2" unfolding sh(3) using K0 by simp
  have "0 < length M" unfolding sh(3) using K0 by simp
  then have g: "get_entry0 M 0 0 0 = Inr 0"
    by (simp add: get_entry0_def list_get_def Let_def sh(4) mat_get_def)
  show ?thesis
    unfolding aHodge_def r ebind_Inr pyret.case prod.case Let_def d g l by simp
qed

lemma aHodge_partial:
  fixes as_index :: "rat \<Rightarrow> error + int"
  assumes sound: "\<And>q k. as_index q = Inr k \<Longrightarrow> q = of_int k"
    and n: "1 \<le> n" and m: "1 \<le> m" and r: "Varith m n = Inr (Tuple (Z0, Z1, M))"
    and a: "aHodge as_index m n = Inr Ms"
  shows "length Ms = length M \<and> (\<forall>p. 0 < p \<and> p < length Ms \<longrightarrow>
          (\<exists>H. block_matrix (arith_block Z0 (fst (M ! p))) (geom_block Z1 (snd (M ! p))) = Inr H
               \<and> Ms ! p = mat_scale ((- 1) ^ p) H))"
proof -
  let ?K = "(n * m + 1) div 2"
  note f = Varith_facts [OF n m r]
  note sh = Varith_inv_shape [OF f(1)]
  from n m have K0: "0 \<le> ?K" by simp
  from a [unfolded aHodge_unfold [OF n m r]] obtain y Ms' where
    g: "mapM (aHodge_grade as_index (map adeg_val Z0) (map gdeg_val Z1) M) [1..?K] = Inr Ms'"
    and Ms: "Ms = [[y]] # Ms'"
    by (auto simp: ebind_def split: sum.splits)
  from mapM_Inr_nth [OF g] have len: "length Ms' = nat ?K"
    and each: "\<And>i. i < nat ?K \<Longrightarrow>
       aHodge_grade as_index (map adeg_val Z0) (map gdeg_val Z1) M ([1..?K] ! i) = Inr (Ms' ! i)"
    by simp_all
  have L: "length Ms = length M" unfolding Ms sh(3) using len K0 by simp
  have G: "\<exists>H. block_matrix (arith_block Z0 (fst (M ! p))) (geom_block Z1 (snd (M ! p))) = Inr H
               \<and> Ms ! p = mat_scale ((- 1) ^ p) H" if p0: "0 < p" and pl: "p < length Ms" for p
  proof -
  from pl Ms len have pK: "p - 1 < nat ?K" and pK': "int p \<le> ?K" using p0 by simp_all
  from p0 have idx: "[1..?K] ! (p - 1) = int p" using upto_1_nth [OF pK] by simp
  from each [OF pK] have gr: "aHodge_grade as_index (map adeg_val Z0) (map gdeg_val Z1) M (int p) = Inr (Ms' ! (p - 1))"
    unfolding idx .
  from p0 have "Ms ! p = Ms' ! (p - 1)" unfolding Ms by (cases p) simp_all
  with aHodge_grade_partial [where as_index = as_index, OF sound n m f(1) p0 pK' gr]
  show ?thesis by simp
  qed
  from L G show ?thesis by blast
qed

lemma aHodge_total:
  fixes as_index :: "rat \<Rightarrow> error + int"
  assumes complete: "\<And>k. as_index (of_int k) = Inr k"
    and n: "1 \<le> n" and m: "1 \<le> m"
  shows "\<exists>Ms. aHodge as_index m n = Inr Ms"
proof -
  let ?K = "(n * m + 1) div 2"
  from m have m0: "0 \<le> m" by simp
  from n have n0: "0 \<le> n" by simp
  from Varith_returns [OF n0 m0] obtain Z0 Z1 M where r: "Varith m n = Inr (Tuple (Z0, Z1, M))" by blast
  note f = Varith_facts [OF n m r]
  note sh = Varith_inv_shape [OF f(1)]
  from sh(5) have Z0: "0 < length Z0" by (simp add: names_pool_entry_def)
  have i0: "as_index 0 = Inr 0" using complete [of 0] by simp
  have l0: "list_get (map adeg_val Z0) 0 = Inr (map adeg_val Z0 ! 0)"
    using Z0 by (simp add: list_get_def Let_def)
  have "\<exists>Ms'. mapM (aHodge_grade as_index (map adeg_val Z0) (map gdeg_val Z1) M) [1..?K] = Inr Ms'
            \<and> length Ms' = length [1..?K]"
  proof (rule mapM_total)
    fix x assume "x \<in> set [1..?K]"
    then have x0: "0 < nat x" and xK: "int (nat x) \<le> ?K" and xx: "int (nat x) = x" by auto
    from aHodge_grade_total [OF complete n m f(1) x0 xK]
    show "\<exists>y. aHodge_grade as_index (map adeg_val Z0) (map gdeg_val Z1) M x = Inr y"
      by (simp only: xx)
  qed
  then obtain Ms' where "mapM (aHodge_grade as_index (map adeg_val Z0) (map gdeg_val Z1) M) [1..?K] = Inr Ms'"
    by blast
  then show ?thesis unfolding aHodge_unfold [OF n m r] by (simp add: i0 l0)
qed

section \<open>The blocks of a grade\<close>

text \<open>The entries of \<^verbatim>\<open>c*block_matrix([[A,B],[B.transpose(),0]])\<close> for a square \<open>A\<close> of size
  \<open>a\<close> and a \<open>B\<close> with \<open>a\<close> rows and \<open>g\<close> columns.\<close>

lemma mat_scale_nth:
  "i < length H \<Longrightarrow> j < length (H ! i) \<Longrightarrow> mat_scale c H ! i ! j = c * H ! i ! j"
  by (simp add: mat_scale_def)

lemma block_matrix_entries:
  assumes A: "is_matrix a a A" and Bm: "is_matrix a g Bm" and a0: "0 < a"
    and H: "block_matrix A Bm = Inr H"
  shows "is_matrix (a + g) (a + g) (mat_scale c H)"
    and "\<And>i j. i < a \<Longrightarrow> j < a \<Longrightarrow> mat_scale c H ! i ! j = c * A ! i ! j"
    and "\<And>i j. i < a \<Longrightarrow> j < g \<Longrightarrow> mat_scale c H ! i ! (a + j) = c * Bm ! i ! j"
    and "\<And>i j. i < a \<Longrightarrow> j < g \<Longrightarrow> mat_scale c H ! (a + j) ! i = c * Bm ! i ! j"
    and "\<And>i j. i < g \<Longrightarrow> j < g \<Longrightarrow> mat_scale c H ! (a + i) ! (a + j) = 0"
proof -
  from A have lA: "length A = a" and rA: "\<And>i. i < a \<Longrightarrow> length (A ! i) = a"
    by (simp_all add: is_matrix_def)
  from Bm have lB: "length Bm = a" and rB: "\<And>i. i < a \<Longrightarrow> length (Bm ! i) = g"
    by (simp_all add: is_matrix_def)
  have nc: "ncols Bm = g" using Bm a0 by (rule ncols_is_matrix)
  from H have Hd: "H = map2 (@) A Bm @
      map (\<lambda>r. r @ replicate g 0) (map (\<lambda>j. map (\<lambda>r. r ! j) Bm) [0..<g])"
    by (simp add: block_matrix_def nrows_def lA lB mat_transpose_def nc split: if_splits)
  have lH: "length H = a + g" unfolding Hd by (simp add: lA lB)
  have top: "H ! i = A ! i @ Bm ! i" if "i < a" for i
    unfolding Hd using that by (simp add: nth_append lA lB)
  have bot: "H ! (a + k) = map (\<lambda>r. r ! k) Bm @ replicate g 0" if "k < g" for k
    unfolding Hd using that by (simp add: nth_append lA lB)
  have ltop: "length (H ! i) = a + g" if "i < a" for i
    unfolding top [OF that] using that by (simp add: rA rB)
  have lbot: "length (H ! (a + k)) = a + g" if "k < g" for k
    unfolding bot [OF that] by (simp add: lB)
  have rows: "length (H ! i) = a + g" if "i < a + g" for i
  proof (cases "i < a")
    case True then show ?thesis by (rule ltop)
  next
    case False
    with that have "i - a < g" by simp
    from lbot [OF this] False show ?thesis by simp
  qed
  show "is_matrix (a + g) (a + g) (mat_scale c H)"
    using lH rows by (simp add: is_matrix_def mat_scale_def)
  show "mat_scale c H ! i ! j = c * A ! i ! j" if i: "i < a" and j: "j < a" for i j
  proof -
    from i j have "mat_scale c H ! i ! j = c * H ! i ! j"
      by (intro mat_scale_nth) (simp_all add: lH ltop)
    also have "H ! i ! j = A ! i ! j" unfolding top [OF i] using j by (simp add: nth_append rA [OF i])
    finally show ?thesis .
  qed
  show "mat_scale c H ! i ! (a + j) = c * Bm ! i ! j" if i: "i < a" and j: "j < g" for i j
  proof -
    from i j have "mat_scale c H ! i ! (a + j) = c * H ! i ! (a + j)"
      by (intro mat_scale_nth) (simp_all add: lH ltop)
    also have "H ! i ! (a + j) = Bm ! i ! j" unfolding top [OF i] by (simp add: nth_append rA [OF i])
    finally show ?thesis .
  qed
  show "mat_scale c H ! (a + j) ! i = c * Bm ! i ! j" if i: "i < a" and j: "j < g" for i j
  proof -
    from i j have "mat_scale c H ! (a + j) ! i = c * H ! (a + j) ! i"
      by (intro mat_scale_nth) (simp_all add: lH lbot)
    also have "H ! (a + j) ! i = Bm ! i ! j" unfolding bot [OF j] using i by (simp add: nth_append lB)
    finally show ?thesis .
  qed
  show "mat_scale c H ! (a + i) ! (a + j) = 0" if i: "i < g" and j: "j < g" for i j
  proof -
    from i j have "mat_scale c H ! (a + i) ! (a + j) = c * H ! (a + i) ! (a + j)"
      by (intro mat_scale_nth) (simp_all add: lH lbot)
    also have "H ! (a + i) ! (a + j) = 0" unfolding bot [OF i] using j by (simp add: nth_append lB)
    finally show ?thesis by simp
  qed
qed

lemma block_matrix_symmetric:
  assumes A: "is_matrix a a A" and Bm: "is_matrix a g Bm" and a0: "0 < a"
    and H: "block_matrix A Bm = Inr H"
    and sym: "\<And>i j. i < a \<Longrightarrow> j < a \<Longrightarrow> A ! i ! j = A ! j ! i"
    and i: "i < a + g" and j: "j < a + g"
  shows "mat_scale c H ! i ! j = mat_scale c H ! j ! i"
proof -
  note e = block_matrix_entries [where c = c, OF A Bm a0 H]
  consider (aa) "i < a" "j < a" | (ab) "i < a" "\<not> j < a" | (ba) "\<not> i < a" "j < a"
    | (bb) "\<not> i < a" "\<not> j < a" by blast
  then show ?thesis
  proof cases
    case aa
    from e(2) [OF aa] e(2) [OF aa(2,1)] sym [OF aa] show ?thesis by simp
  next
    case ab
    with j have k: "j - a < g" and jj: "j = a + (j - a)" by simp_all
    from e(3) [OF ab(1) k] e(4) [OF ab(1) k] show ?thesis using jj by simp
  next
    case ba
    with i have k: "i - a < g" and ii: "i = a + (i - a)" by simp_all
    from e(3) [OF ba(2) k] e(4) [OF ba(2) k] show ?thesis using ii by simp
  next
    case bb
    with i j have k: "i - a < g" "j - a < g" and ii: "i = a + (i - a)" "j = a + (j - a)" by simp_all
    from e(5) [OF k] e(5) [OF k(2,1)] show ?thesis using ii by simp
  qed
qed

lemma arith_block_nth:
  "is_matrix a a T \<Longrightarrow> i < a \<Longrightarrow> j < a \<Longrightarrow> arith_block Z0 T ! i ! j = adeg_val (Z0 ! nat (T ! i ! j))"
  by (simp add: arith_block_def is_matrix_def)

lemma geom_block_nth:
  "is_matrix a g T \<Longrightarrow> i < a \<Longrightarrow> j < g \<Longrightarrow>
     geom_block Z1 T ! i ! j = of_int (gdeg_val (Z1 ! nat (T ! i ! j))) / 2"
  by (simp add: geom_block_def is_matrix_def)

text \<open>The entries of one grade of the output of aHodge, read off the tables of Varith.\<close>

lemma aHodge_grade_entries:
  fixes as_index :: "rat \<Rightarrow> error + int"
  assumes n: "1 \<le> n" and m: "1 \<le> m" and r: "Varith m n = Inr (Tuple (Z0, Z1, M))"
    and p0: "0 < p" and pK: "int p \<le> (n * m + 1) div 2"
    and H: "block_matrix (arith_block Z0 (fst (M ! p))) (geom_block Z1 (snd (M ! p))) = Inr H"
  shows "is_matrix (length (B m n ! p) + length (B m n ! (p - 1)))
           (length (B m n ! p) + length (B m n ! (p - 1))) (mat_scale c H)"
    and "\<And>i j. i < length (B m n ! p) \<Longrightarrow> j < length (B m n ! p) \<Longrightarrow>
          \<exists>q. adeg (pooled (B m n ! p ! i) (B m n ! p ! j) (m * n + 1 - 2 * int p) n) None None = Inr q
             \<and> adeg (pooled (B m n ! p ! i) (B m n ! p ! j) (m * n + 1 - 2 * int p) n)
                  (Some (Tam m n)) (Some (harm_list (m + n - 1))) = Inr q
             \<and> mat_scale c H ! i ! j = c * q"
    and "\<And>i j. i < length (B m n ! p) \<Longrightarrow> j < length (B m n ! (p - 1)) \<Longrightarrow>
          \<exists>d. gdeg (pooled (B m n ! p ! i) (B m n ! (p - 1) ! j) (m * n + 1 - 2 * int p) n) = Inr d
             \<and> mat_scale c H ! i ! (length (B m n ! p) + j) = c * (of_int d / 2)
             \<and> mat_scale c H ! (length (B m n ! p) + j) ! i = c * (of_int d / 2)"
    and "\<And>i j. i < length (B m n ! (p - 1)) \<Longrightarrow> j < length (B m n ! (p - 1)) \<Longrightarrow>
          mat_scale c H ! (length (B m n ! p) + i) ! (length (B m n ! p) + j) = 0"
    and "\<And>i j. i < length (B m n ! p) + length (B m n ! (p - 1)) \<Longrightarrow>
          j < length (B m n ! p) + length (B m n ! (p - 1)) \<Longrightarrow>
          mat_scale c H ! i ! j = mat_scale c H ! j ! i"
proof -
  let ?a = "length (B m n ! p)" and ?g = "length (B m n ! (p - 1))"
  let ?A = "arith_block Z0 (fst (M ! p))" and ?B = "geom_block Z1 (snd (M ! p))"
  have cm: "m * n = n * m" by simp
  note f = Varith_facts [OF n m r]
  note t = grade_tables [OF n m f(1) p0 pK]
  from f(2) have z0: "\<And>v. v \<in> set Z0 \<Longrightarrow> length v = nat n \<and> weight v = n * m + 1"
    and z1: "\<And>v. v \<in> set Z1 \<Longrightarrow> length v = nat n \<and> weight v = n * m"
    by (simp_all add: pool_ok_def)
  have mA: "is_matrix ?a ?a ?A" unfolding arith_block_def using t(2) by (rule is_matrix_map)
  have mB: "is_matrix ?a ?g ?B" unfolding geom_block_def using t(3) by (rule is_matrix_map)
  note e = block_matrix_entries [where c = c, OF mA mB t(4) H]
  show "is_matrix (?a + ?g) (?a + ?g) (mat_scale c H)" by (rule e(1))
  have Aent: "\<exists>q. adeg (pooled (B m n ! p ! i) (B m n ! p ! j) (m * n + 1 - 2 * int p) n) None None = Inr q
             \<and> adeg (pooled (B m n ! p ! i) (B m n ! p ! j) (m * n + 1 - 2 * int p) n)
                  (Some (Tam m n)) (Some (harm_list (m + n - 1))) = Inr q
             \<and> ?A ! i ! j = q" if i: "i < ?a" and j: "j < ?a" for i j
  proof -
    let ?z = "pooled (B m n ! p ! i) (B m n ! p ! j) (n * m + 1 - 2 * int p) n"
    from Varith_inv_self_entry(2) [OF f(1) p0 pK i j]
    have k: "nat (fst (M ! p) ! i ! j) < length Z0" and z: "Z0 ! nat (fst (M ! p) ! i ! j) = ?z"
      by (simp_all add: names_pool_entry_def)
    from k z have "?z \<in> set Z0" using nth_mem by fastforce
    from z0 [OF this] have l: "length ?z = nat n" and w: "weight ?z = n * m + 1" by simp_all
    note d = adeg_pooled [OF n l w]
    have "?A ! i ! j = adeg_val ?z" unfolding arith_block_nth [OF t(2) i j] z ..
    with d show ?thesis unfolding cm by blast
  qed
  have Bent: "\<exists>d. gdeg (pooled (B m n ! p ! i) (B m n ! (p - 1) ! j) (m * n + 1 - 2 * int p) n) = Inr d
             \<and> ?B ! i ! j = of_int d / 2" if i: "i < ?a" and j: "j < ?g" for i j
  proof -
    let ?z = "pooled (B m n ! p ! i) (B m n ! (p - 1) ! j) (n * m + 1 - 2 * int p) n"
    from Varith_inv_cross_entry [OF f(1) p0 pK i j]
    have k: "nat (snd (M ! p) ! i ! j) < length Z1" and z: "Z1 ! nat (snd (M ! p) ! i ! j) = ?z"
      by (simp_all add: names_pool_entry_def)
    from k z have "?z \<in> set Z1" using nth_mem by fastforce
    from z1 [OF this] have l: "length ?z = nat n" and w: "weight ?z = n * m" by simp_all
    note d = gdeg_pooled [OF n l w]
    have "?B ! i ! j = of_int (gdeg_val ?z) / 2" unfolding geom_block_nth [OF t(3) i j] z ..
    with d show ?thesis unfolding cm by blast
  qed
  show "\<exists>q. adeg (pooled (B m n ! p ! i) (B m n ! p ! j) (m * n + 1 - 2 * int p) n) None None = Inr q
             \<and> adeg (pooled (B m n ! p ! i) (B m n ! p ! j) (m * n + 1 - 2 * int p) n)
                  (Some (Tam m n)) (Some (harm_list (m + n - 1))) = Inr q
             \<and> mat_scale c H ! i ! j = c * q" if i: "i < ?a" and j: "j < ?a" for i j
  proof -
    from Aent [OF i j] obtain q where
      "adeg (pooled (B m n ! p ! i) (B m n ! p ! j) (m * n + 1 - 2 * int p) n) None None = Inr q"
      "adeg (pooled (B m n ! p ! i) (B m n ! p ! j) (m * n + 1 - 2 * int p) n)
         (Some (Tam m n)) (Some (harm_list (m + n - 1))) = Inr q"
      "?A ! i ! j = q" by blast
    then show ?thesis unfolding e(2) [OF i j] by simp
  qed
  show "\<exists>d. gdeg (pooled (B m n ! p ! i) (B m n ! (p - 1) ! j) (m * n + 1 - 2 * int p) n) = Inr d
             \<and> mat_scale c H ! i ! (?a + j) = c * (of_int d / 2)
             \<and> mat_scale c H ! (?a + j) ! i = c * (of_int d / 2)" if i: "i < ?a" and j: "j < ?g" for i j
  proof -
    from Bent [OF i j] obtain d where
      "gdeg (pooled (B m n ! p ! i) (B m n ! (p - 1) ! j) (m * n + 1 - 2 * int p) n) = Inr d"
      "?B ! i ! j = of_int d / 2" by blast
    then show ?thesis unfolding e(3) [OF i j] e(4) [OF i j] by simp
  qed
  show "mat_scale c H ! (?a + i) ! (?a + j) = 0" if "i < ?g" "j < ?g" for i j
    using that by (rule e(5))
  have sym: "?A ! i ! j = ?A ! j ! i" if i: "i < ?a" and j: "j < ?a" for i j
    unfolding arith_block_nth [OF t(2) i j] arith_block_nth [OF t(2) j i]
      Varith_inv_self_entry(1) [OF f(1) p0 pK i j] ..
  show "mat_scale c H ! i ! j = mat_scale c H ! j ! i" if "i < ?a + ?g" "j < ?a + ?g" for i j
    using mA mB t(4) H sym that by (rule block_matrix_symmetric)
qed

section \<open>The arithmetic bilinear forms, grade by grade\<close>

text \<open>
  Claim C4.  For \<open>m, n \<ge> 1\<close> and every grade \<open>p \<ge> 1\<close> of the list that \<open>aHodge(m,n)\<close>
  returns, with \<open>a\<close> the number of basis vectors of grade \<open>p\<close> and \<open>g\<close> the number of those of
  grade \<open>p-1\<close>, \<open>aHodge(m,n)[p]\<close> is a symmetric square matrix of size \<open>a + g\<close> whose entries
  are \<open>(-1)^p\<close> times those of \<open>[[A, B], [B^T, 0]]\<close>:
  \<^item> for \<open>i, j < a\<close> the entry \<open>(i, j)\<close> is \<open>(-1)^p\<close> times the arithmetic degree of the vector
    \<open>v_i + v_j + (m*n+1-2p) e1\<close>, which is the vector that the grade-\<open>p\<close> self-pairing table
    names in the pool \<open>Z[0]\<close>;
  \<^item> for \<open>i < a\<close> and \<open>j < g\<close> the entries \<open>(i, a+j)\<close> and \<open>(a+j, i)\<close> are both \<open>(-1)^p\<close> times
    half the geometric degree of the vector \<open>v_i + w_j + (m*n+1-2p) e1\<close>, which is the vector
    that the cross-pairing table names in the pool \<open>Z[1]\<close>;
  \<^item> for \<open>i, j < g\<close> the entry \<open>(a+i, a+j)\<close> is \<open>0\<close>.

  The degree functions return on these vectors, and the arithmetic degree is the same with
  and without the tables \<open>Tam(m,n)\<close> and \<open>harm_list(m+n-1)\<close>.

  The conversion \<open>as_index\<close> of a rational matrix entry into a list position belongs to the
  library.  The statement holds for every conversion that, where it answers, answers the
  integer the rational number is; and if the conversion answers on every integer, then
  \<open>aHodge(m,n)\<close> returns.
\<close>

theorem C4_aHodge_blocks:
  fixes as_index :: "rat \<Rightarrow> error + int"
  assumes "1 \<le> m" "1 \<le> n" and "\<forall>q k. as_index q = Inr k \<longrightarrow> q = of_int k"
  shows "(\<forall>Ms. aHodge as_index m n = Inr Ms \<longrightarrow>
           (\<exists>Z0 Z1 M. Varith m n = Inr (Tuple (Z0, Z1, M)) \<and> length Ms = length M \<and>
              length M = nat ((m * n + 1) div 2 + 1) \<and>
              (\<forall>p. 0 < p \<and> p < length Ms \<longrightarrow>
                 is_matrix (length (B m n ! p)) (length (B m n ! p)) (fst (M ! p)) \<and>
                 is_matrix (length (B m n ! p)) (length (B m n ! (p - 1))) (snd (M ! p)) \<and>
                 is_matrix (length (B m n ! p) + length (B m n ! (p - 1)))
                   (length (B m n ! p) + length (B m n ! (p - 1))) (Ms ! p) \<and>
                 (\<forall>i<length (B m n ! p). \<forall>j<length (B m n ! p).
                    names_pool_entry Z0 (fst (M ! p) ! i ! j)
                      (pooled (B m n ! p ! i) (B m n ! p ! j) (m * n + 1 - 2 * int p) n) \<and>
                    (\<exists>q. adeg (pooled (B m n ! p ! i) (B m n ! p ! j) (m * n + 1 - 2 * int p) n)
                            None None = Inr q
                       \<and> adeg (pooled (B m n ! p ! i) (B m n ! p ! j) (m * n + 1 - 2 * int p) n)
                            (Some (Tam m n)) (Some (harm_list (m + n - 1))) = Inr q
                       \<and> Ms ! p ! i ! j = (- 1) ^ p * q)) \<and>
                 (\<forall>i<length (B m n ! p). \<forall>j<length (B m n ! (p - 1)).
                    names_pool_entry Z1 (snd (M ! p) ! i ! j)
                      (pooled (B m n ! p ! i) (B m n ! (p - 1) ! j) (m * n + 1 - 2 * int p) n) \<and>
                    (\<exists>d. gdeg (pooled (B m n ! p ! i) (B m n ! (p - 1) ! j) (m * n + 1 - 2 * int p) n)
                            = Inr d
                       \<and> Ms ! p ! i ! (length (B m n ! p) + j) = (- 1) ^ p * (of_int d / 2)
                       \<and> Ms ! p ! (length (B m n ! p) + j) ! i = (- 1) ^ p * (of_int d / 2))) \<and>
                 (\<forall>i<length (B m n ! (p - 1)). \<forall>j<length (B m n ! (p - 1)).
                    Ms ! p ! (length (B m n ! p) + i) ! (length (B m n ! p) + j) = 0) \<and>
                 (\<forall>i<length (B m n ! p) + length (B m n ! (p - 1)).
                  \<forall>j<length (B m n ! p) + length (B m n ! (p - 1)).
                    Ms ! p ! i ! j = Ms ! p ! j ! i))))
       \<and> ((\<forall>k. as_index (of_int k) = Inr k) \<longrightarrow> (\<exists>Ms. aHodge as_index m n = Inr Ms))"
proof (intro conjI allI impI)
  fix Ms assume a: "aHodge as_index m n = Inr Ms"
  have c: "m * n = n * m" by simp
  from assms(3) have sound: "\<And>q k. as_index q = Inr k \<Longrightarrow> q = of_int k" by blast
  from assms have m0: "0 \<le> m" and n0: "0 \<le> n" by simp_all
  from Varith_returns [OF n0 m0] obtain Z0 Z1 M where r: "Varith m n = Inr (Tuple (Z0, Z1, M))" by blast
  note f = Varith_facts [OF assms(2,1) r]
  note sh = Varith_inv_shape [OF f(1)]
  from aHodge_partial [where as_index = as_index, OF sound assms(2,1) r a]
  have part: "length Ms = length M"
    "\<And>p. 0 < p \<Longrightarrow> p < length Ms \<Longrightarrow>
          (\<exists>H. block_matrix (arith_block Z0 (fst (M ! p))) (geom_block Z1 (snd (M ! p))) = Inr H
               \<and> Ms ! p = mat_scale ((- 1) ^ p) H)" by blast+
  have lM: "length M = nat ((m * n + 1) div 2 + 1)" unfolding c by (rule sh(3))
  let ?a = "\<lambda>p. length (B m n ! p)" and ?g = "\<lambda>p. length (B m n ! (p - 1))"
  let ?z0 = "\<lambda>p i j. pooled (B m n ! p ! i) (B m n ! p ! j) (m * n + 1 - 2 * int p) n"
  let ?z1 = "\<lambda>p i j. pooled (B m n ! p ! i) (B m n ! (p - 1) ! j) (m * n + 1 - 2 * int p) n"
  let ?G = "\<lambda>p. is_matrix (?a p) (?a p) (fst (M ! p)) \<and>
                 is_matrix (?a p) (?g p) (snd (M ! p)) \<and>
                 is_matrix (?a p + ?g p) (?a p + ?g p) (Ms ! p) \<and>
                 (\<forall>i<?a p. \<forall>j<?a p.
                    names_pool_entry Z0 (fst (M ! p) ! i ! j) (?z0 p i j) \<and>
                    (\<exists>q. adeg (?z0 p i j) None None = Inr q
                       \<and> adeg (?z0 p i j) (Some (Tam m n)) (Some (harm_list (m + n - 1))) = Inr q
                       \<and> Ms ! p ! i ! j = (- 1) ^ p * q)) \<and>
                 (\<forall>i<?a p. \<forall>j<?g p.
                    names_pool_entry Z1 (snd (M ! p) ! i ! j) (?z1 p i j) \<and>
                    (\<exists>d. gdeg (?z1 p i j) = Inr d
                       \<and> Ms ! p ! i ! (?a p + j) = (- 1) ^ p * (of_int d / 2)
                       \<and> Ms ! p ! (?a p + j) ! i = (- 1) ^ p * (of_int d / 2))) \<and>
                 (\<forall>i<?g p. \<forall>j<?g p. Ms ! p ! (?a p + i) ! (?a p + j) = 0) \<and>
                 (\<forall>i<?a p + ?g p. \<forall>j<?a p + ?g p. Ms ! p ! i ! j = Ms ! p ! j ! i)"
  have grade: "?G p" if p: "0 < p \<and> p < length Ms" for p
  proof -
    from p have p0: "0 < p" and pl: "p < length Ms" by blast+
    from pl part(1) sh(3) have pK: "int p \<le> (n * m + 1) div 2" by linarith
    note t = grade_tables [OF assms(2,1) f(1) p0 pK]
    from part(2) [OF p0 pl] obtain H where
      H: "block_matrix (arith_block Z0 (fst (M ! p))) (geom_block Z1 (snd (M ! p))) = Inr H"
      and Mp: "Ms ! p = mat_scale ((- 1) ^ p) H" by blast
    note e = aHodge_grade_entries [where c = "(- 1) ^ p", OF assms(2,1) r p0 pK H]
    have e0: "names_pool_entry Z0 (fst (M ! p) ! i ! j) (?z0 p i j)"
      if "i < ?a p" "j < ?a p" for i j
      unfolding c using that by (rule Varith_inv_self_entry(2) [OF f(1) p0 pK])
    have e1: "names_pool_entry Z1 (snd (M ! p) ! i ! j) (?z1 p i j)"
      if "i < ?a p" "j < ?g p" for i j
      unfolding c using that by (rule Varith_inv_cross_entry [OF f(1) p0 pK])
    have A: "\<forall>i<?a p. \<forall>j<?a p.
                    names_pool_entry Z0 (fst (M ! p) ! i ! j) (?z0 p i j) \<and>
                    (\<exists>q. adeg (?z0 p i j) None None = Inr q
                       \<and> adeg (?z0 p i j) (Some (Tam m n)) (Some (harm_list (m + n - 1))) = Inr q
                       \<and> Ms ! p ! i ! j = (- 1) ^ p * q)"
    proof (intro allI impI)
      fix i j assume i: "i < ?a p" and j: "j < ?a p"
      from e0 [OF i j] e(2) [OF i j]
      show "names_pool_entry Z0 (fst (M ! p) ! i ! j) (?z0 p i j) \<and>
                    (\<exists>q. adeg (?z0 p i j) None None = Inr q
                       \<and> adeg (?z0 p i j) (Some (Tam m n)) (Some (harm_list (m + n - 1))) = Inr q
                       \<and> Ms ! p ! i ! j = (- 1) ^ p * q)"
        unfolding Mp by (rule conjI)
    qed
    have Bb: "\<forall>i<?a p. \<forall>j<?g p.
                    names_pool_entry Z1 (snd (M ! p) ! i ! j) (?z1 p i j) \<and>
                    (\<exists>d. gdeg (?z1 p i j) = Inr d
                       \<and> Ms ! p ! i ! (?a p + j) = (- 1) ^ p * (of_int d / 2)
                       \<and> Ms ! p ! (?a p + j) ! i = (- 1) ^ p * (of_int d / 2))"
    proof (intro allI impI)
      fix i j assume i: "i < ?a p" and j: "j < ?g p"
      from e1 [OF i j] e(3) [OF i j]
      show "names_pool_entry Z1 (snd (M ! p) ! i ! j) (?z1 p i j) \<and>
                    (\<exists>d. gdeg (?z1 p i j) = Inr d
                       \<and> Ms ! p ! i ! (?a p + j) = (- 1) ^ p * (of_int d / 2)
                       \<and> Ms ! p ! (?a p + j) ! i = (- 1) ^ p * (of_int d / 2))"
        unfolding Mp by (rule conjI)
    qed
    have Z: "\<forall>i<?g p. \<forall>j<?g p. Ms ! p ! (?a p + i) ! (?a p + j) = 0"
      unfolding Mp by (intro allI impI) (rule e(4))
    have S: "\<forall>i<?a p + ?g p. \<forall>j<?a p + ?g p. Ms ! p ! i ! j = Ms ! p ! j ! i"
      unfolding Mp by (intro allI impI) (rule e(5))
    have D: "is_matrix (?a p + ?g p) (?a p + ?g p) (Ms ! p)" unfolding Mp by (rule e(1))
    from t(2) t(3) D A Bb Z S show ?thesis by (intro conjI)
  qed
  have all: "\<forall>p. 0 < p \<and> p < length Ms \<longrightarrow> ?G p"
    by (intro allI impI) (rule grade)
  show "\<exists>Z0 Z1 M. Varith m n = Inr (Tuple (Z0, Z1, M)) \<and> length Ms = length M \<and>
              length M = nat ((m * n + 1) div 2 + 1) \<and>
              (\<forall>p. 0 < p \<and> p < length Ms \<longrightarrow>
                 is_matrix (length (B m n ! p)) (length (B m n ! p)) (fst (M ! p)) \<and>
                 is_matrix (length (B m n ! p)) (length (B m n ! (p - 1))) (snd (M ! p)) \<and>
                 is_matrix (length (B m n ! p) + length (B m n ! (p - 1)))
                   (length (B m n ! p) + length (B m n ! (p - 1))) (Ms ! p) \<and>
                 (\<forall>i<length (B m n ! p). \<forall>j<length (B m n ! p).
                    names_pool_entry Z0 (fst (M ! p) ! i ! j)
                      (pooled (B m n ! p ! i) (B m n ! p ! j) (m * n + 1 - 2 * int p) n) \<and>
                    (\<exists>q. adeg (pooled (B m n ! p ! i) (B m n ! p ! j) (m * n + 1 - 2 * int p) n)
                            None None = Inr q
                       \<and> adeg (pooled (B m n ! p ! i) (B m n ! p ! j) (m * n + 1 - 2 * int p) n)
                            (Some (Tam m n)) (Some (harm_list (m + n - 1))) = Inr q
                       \<and> Ms ! p ! i ! j = (- 1) ^ p * q)) \<and>
                 (\<forall>i<length (B m n ! p). \<forall>j<length (B m n ! (p - 1)).
                    names_pool_entry Z1 (snd (M ! p) ! i ! j)
                      (pooled (B m n ! p ! i) (B m n ! (p - 1) ! j) (m * n + 1 - 2 * int p) n) \<and>
                    (\<exists>d. gdeg (pooled (B m n ! p ! i) (B m n ! (p - 1) ! j) (m * n + 1 - 2 * int p) n)
                            = Inr d
                       \<and> Ms ! p ! i ! (length (B m n ! p) + j) = (- 1) ^ p * (of_int d / 2)
                       \<and> Ms ! p ! (length (B m n ! p) + j) ! i = (- 1) ^ p * (of_int d / 2))) \<and>
                 (\<forall>i<length (B m n ! (p - 1)). \<forall>j<length (B m n ! (p - 1)).
                    Ms ! p ! (length (B m n ! p) + i) ! (length (B m n ! p) + j) = 0) \<and>
                 (\<forall>i<length (B m n ! p) + length (B m n ! (p - 1)).
                  \<forall>j<length (B m n ! p) + length (B m n ! (p - 1)).
                    Ms ! p ! i ! j = Ms ! p ! j ! i))"
    by (rule exI [of _ Z0], rule exI [of _ Z1], rule exI [of _ M], intro conjI)
       (rule r part(1) lM all)+
next
  assume "\<forall>k. as_index (of_int k) = Inr k"
  then have "\<And>k. as_index (of_int k) = Inr k" by blast
  from aHodge_total [where as_index = as_index, OF this assms(2,1)] show "\<exists>Ms. aHodge as_index m n = Inr Ms" .
qed

theorem C4_aHodge_blocks_witness:
  "(1::int) \<le> 2 \<and> (1::int) \<le> 2
   \<and> aHodge integral_index 2 2 = Inr [[[43 / 6]], [[- (43 / 6), - 1], [- 1, 0]],
        [[5 / 3, 37 / 12, 1 / 2], [37 / 12, 43 / 6, 1], [1 / 2, 1, 0]]]
   \<and> (\<exists>q. adeg [1, 2] None None = Inr q \<and> (5 / 3 :: rat) = (- 1) ^ 2 * q)
   \<and> (\<exists>d. gdeg [4, 0] = Inr d \<and> (1 :: rat) = (- 1) ^ 2 * (of_int d / 2))
   \<and> [[5 / 3, 37 / 12, 1 / 2], [37 / 12, 43 / 6, 1], [1 / 2, 1, 0 :: rat]] ! 1 ! 2
       = [[5 / 3, 37 / 12, 1 / 2], [37 / 12, 43 / 6, 1], [1 / 2, 1, 0]] ! 2 ! 1"
proof -
  let ?Ms = "[[[43 / 6]], [[- (43 / 6), - 1], [- 1, 0]],
        [[5 / 3, 37 / 12, 1 / 2], [37 / 12, 43 / 6, 1], [1 / 2, 1, 0 :: rat]]]"
  have s: "\<forall>q k. integral_index q = Inr k \<longrightarrow> q = of_int k"
    by (auto simp: integral_index_def split: if_splits)
  have h: "(1::int) \<le> 2" by simp
  note t = C4_aHodge_blocks [OF h h s]
  have a: "aHodge integral_index 2 2 = Inr ?Ms" by code_simp
  have b: "B 2 2 = [[[0, 0]], [[1, 0]], [[0, 1], [2, 0]], [[1, 1]], [[0, 2]]]" by code_simp
  have p: "(0::nat) < 2 \<and> (2::nat) < length ?Ms" by simp
  have l: "(0::nat) < length (B 2 2 ! 2)" "(1::nat) < length (B 2 2 ! 2)"
    "(0::nat) < length (B 2 2 ! (2 - 1))"
    "(1::nat) < length (B 2 2 ! 2) + length (B 2 2 ! (2 - 1))"
    "(2::nat) < length (B 2 2 ! 2) + length (B 2 2 ! (2 - 1))"
    unfolding b by simp_all
  have v: "pooled (B 2 2 ! 2 ! 0) (B 2 2 ! 2 ! 0) (2 * 2 + 1 - 2 * int 2) 2 = [1, 2]"
    "pooled (B 2 2 ! 2 ! 1) (B 2 2 ! (2 - 1) ! 0) (2 * 2 + 1 - 2 * int 2) 2 = [4, 0]"
    unfolding b by (simp_all add: pooled_def smul_def)
  have e: "?Ms ! 2 ! 0 ! 0 = 5 / 3" "?Ms ! 2 ! 1 ! (length (B 2 2 ! 2) + 0) = 1"
    unfolding b by simp_all
  from t [THEN conjunct1, rule_format, OF a] show ?thesis
    apply (elim exE conjE)
    subgoal premises prems for Z0 Z1 M
    proof -
      note g = prems(4) [rule_format, OF p]
      note A = g [THEN conjunct2, THEN conjunct2, THEN conjunct2, THEN conjunct1, rule_format,
        OF l(1) l(1), THEN conjunct2, unfolded v e]
      note Bb = g [THEN conjunct2, THEN conjunct2, THEN conjunct2, THEN conjunct2, THEN conjunct1,
        rule_format, OF l(2) l(3), THEN conjunct2, unfolded v e]
      note S = g [THEN conjunct2, THEN conjunct2, THEN conjunct2, THEN conjunct2, THEN conjunct2,
        THEN conjunct2, rule_format, OF l(4) l(5)]
      from A have A': "\<exists>q. adeg [1, 2] None None = Inr q \<and> (5 / 3 :: rat) = (- 1) ^ 2 * q"
        by blast
      from Bb have B': "\<exists>d. gdeg [4, 0] = Inr d \<and> (1 :: rat) = (- 1) ^ 2 * (of_int d / 2)"
        by blast
      from S have S': "?Ms ! 2 ! 1 ! 2 = ?Ms ! 2 ! 2 ! 1" .
      from a A' B' S' show ?thesis by simp
    qed
    done
qed

end
